theory Spec2Isabelle
  imports Complex_Main
begin

section \<open>JavaScript strings\<close>

text \<open>
  A JavaScript string is modelled as a \<^typ>\<open>string\<close>: a list of code units, each a
  \<^typ>\<open>char\<close>. Code units above 255 are outside the model.
\<close>

definition nl :: char where
  "nl = CHR 0x0A"

text \<open>\<^verbatim>\<open>s.startsWith(p)\<close>\<close>

definition startsWith :: "string \<Rightarrow> string \<Rightarrow> bool" where
  "startsWith s p = (take (length p) s = p)"

text \<open>\<^verbatim>\<open>s.includes(p)\<close>: \<open>p\<close> occurs in \<open>s\<close> at some position.\<close>

fun includes_str :: "string \<Rightarrow> string \<Rightarrow> bool" where
  "includes_str [] p = (p = [])"
| "includes_str (c # cs) p = (startsWith (c # cs) p \<or> includes_str cs p)"

text \<open>
  The white space \<^verbatim>\<open>String.prototype.trim\<close> removes, among the code units of the
  model: TAB, LF, VT, FF, CR, SPACE and NBSP.
\<close>

definition js_ws :: "char \<Rightarrow> bool" where
  "js_ws c = (c \<in> {CHR 0x09, CHR 0x0A, CHR 0x0B, CHR 0x0C, CHR 0x0D, CHR 0x20, CHR 0xA0})"

definition trim :: "string \<Rightarrow> string" where
  "trim s = rev (dropWhile js_ws (rev (dropWhile js_ws s)))"

text \<open>
  \<^verbatim>\<open>s.split('\n')\<close>: the segments between line feeds; always at least one segment,
  the last being the text after the last line feed.
\<close>

definition cons_first :: "char \<Rightarrow> string list \<Rightarrow> string list" where
  "cons_first c ls = (case ls of [] \<Rightarrow> [[c]] | l # ls' \<Rightarrow> (c # l) # ls')"

fun split_nl :: "string \<Rightarrow> string list" where
  "split_nl [] = [[]]"
| "split_nl (c # cs) = (if c = nl then [] # split_nl cs else cons_first c (split_nl cs))"

section \<open>Event-Stream Transport (server-eventsource.js)\<close>

text \<open>
  The three variables the \<^verbatim>\<open>'data'\<close> handler of \<^verbatim>\<open>_connect\<close> closes over.
\<close>

record es_parser =
  buffer :: string
  currentEvent :: string
  currentData :: string

text \<open>An emitted event: \<^verbatim>\<open>_emit(event, data)\<close> calls the listeners with \<^verbatim>\<open>{data, type}\<close>.\<close>

type_synonym stream_event = "string \<times> string"

definition parser_init :: es_parser where
  "parser_init = \<lparr>buffer = [], currentEvent = ''message'', currentData = []\<rparr>"

text \<open>The body of \<^verbatim>\<open>for (const line of lines)\<close>, with the events emitted so far.\<close>

definition on_line :: "stream_event list \<times> es_parser \<Rightarrow> string \<Rightarrow> stream_event list \<times> es_parser" where
  "on_line acc line =
     (let (out, p) = acc in
      if startsWith line ''event:'' then (out, p\<lparr>currentEvent := trim (drop 6 line)\<rparr>)
      else if startsWith line ''data:'' then (out, p\<lparr>currentData := trim (drop 5 line)\<rparr>)
      else if line = [] then
        (if currentData p \<noteq> []
         then (out @ [(currentEvent p, currentData p)],
               p\<lparr>currentEvent := ''message'', currentData := []\<rparr>)
         else (out, p))
      else (out, p))"

text \<open>
  \<^verbatim>\<open>res.on('data', chunk => ...)\<close>: append the chunk, split, keep the last segment
  as the new buffer and run the loop over the others.
\<close>

definition on_data :: "stream_event list \<times> es_parser \<Rightarrow> string \<Rightarrow> stream_event list \<times> es_parser" where
  "on_data acc chunk =
     (let (out, p) = acc;
          lines = split_nl (buffer p @ chunk)
      in foldl on_line (out, p\<lparr>buffer := last lines\<rparr>) (butlast lines))"

text \<open>A connection that receives the chunks in order, from the initial parser state.\<close>

definition receive :: "string list \<Rightarrow> stream_event list \<times> es_parser" where
  "receive chunks = foldl on_data ([], parser_init) chunks"

subsection \<open>Well-formed frames\<close>

text \<open>
  A frame as the transport's contract describes it: an optional \<^verbatim>\<open>event:\<close> line, a
  \<^verbatim>\<open>data:\<close> line and a blank line, every line ended by a line feed. \<open>Frame n d\<close>
  holds the text after \<^verbatim>\<open>event:\<close> (if the line is there) and the text after
  \<^verbatim>\<open>data:\<close>. A frame is well formed when neither text holds a line feed and the
  payload is not blank (a pending payload exists at the blank line). The event it
  stands for has the two texts without their surrounding white space, and the name
  \<^verbatim>\<open>message\<close> when there is no \<^verbatim>\<open>event:\<close> line.
\<close>

datatype frame = Frame "string option" string

fun frame_lines :: "frame \<Rightarrow> string list" where
  "frame_lines (Frame None d) = [''data:'' @ d, []]"
| "frame_lines (Frame (Some n) d) = [''event:'' @ n, ''data:'' @ d, []]"

definition render :: "frame \<Rightarrow> string" where
  "render f = concat (map (\<lambda>l. l @ [nl]) (frame_lines f))"

fun wf_frame :: "frame \<Rightarrow> bool" where
  "wf_frame (Frame None d) = (nl \<notin> set d \<and> trim d \<noteq> [])"
| "wf_frame (Frame (Some n) d) = (nl \<notin> set n \<and> nl \<notin> set d \<and> trim d \<noteq> [])"

fun expected :: "frame \<Rightarrow> stream_event" where
  "expected (Frame None d) = (''message'', trim d)"
| "expected (Frame (Some n) d) = (trim n, trim d)"

section \<open>JavaScript values\<close>

text \<open>
  The values \<^verbatim>\<open>JSON.parse\<close> returns, and \<^verbatim>\<open>undefined\<close>. A number is carried by
  the text JavaScript prints for it (\<^verbatim>\<open>String(n)\<close>: \<^verbatim>\<open>1\<close>, \<^verbatim>\<open>-32000\<close>, \<^verbatim>\<open>0.5\<close>,
  \<^verbatim>\<open>1e+21\<close>; both zeros print as \<^verbatim>\<open>0\<close>). Two numbers are equal, also as keys of a
  \<^verbatim>\<open>Map\<close>, exactly when they print the same, and the number that an \<^verbatim>\<open>if\<close> takes
  for false is zero. An object is the list of its properties, and reading a property
  finds the first entry of that name.
\<close>

datatype jv =
    JUndefined
  | JNull
  | JBool bool
  | JNum string
  | JStr string
  | JArr "jv list"
  | JObj "(string \<times> jv) list"

definition nullish :: "jv \<Rightarrow> bool" where
  "nullish v = (v = JUndefined \<or> v = JNull)"

text \<open>The values an \<^verbatim>\<open>if\<close> takes for true.\<close>

definition truthy :: "jv \<Rightarrow> bool" where
  "truthy v = (v \<noteq> JUndefined \<and> v \<noteq> JNull \<and> v \<noteq> JBool False \<and> v \<noteq> JNum ''0'' \<and> v \<noteq> JStr [])"

text \<open>
  \<^verbatim>\<open>v.k\<close> for a value that is neither \<^verbatim>\<open>null\<close> nor \<^verbatim>\<open>undefined\<close> and a name
  \<open>k\<close> that no prototype defines: the property of an object, \<^verbatim>\<open>undefined\<close> otherwise.
\<close>

definition js_get :: "jv \<Rightarrow> string \<Rightarrow> jv" where
  "js_get v k = (case v of JObj kvs \<Rightarrow> (case map_of kvs k of Some x \<Rightarrow> x | None \<Rightarrow> JUndefined)
                         | _ \<Rightarrow> JUndefined)"

definition digit :: "nat \<Rightarrow> char" where
  "digit n = ''0123456789'' ! (n mod 10)"

fun dec_nat :: "nat \<Rightarrow> string" where
  "dec_nat n = (if n < 10 then [digit n] else dec_nat (n div 10) @ [digit n])"

fun join_comma :: "string list \<Rightarrow> string" where
  "join_comma [] = []"
| "join_comma [s] = s"
| "join_comma (s # t # ss) = s @ '','' @ join_comma (t # ss)"

text \<open>The string a template literal \<^verbatim>\<open>`${v}`\<close> puts for a value.\<close>

fun js_toString :: "jv \<Rightarrow> string" where
  "js_toString JUndefined = ''undefined''"
| "js_toString JNull = ''null''"
| "js_toString (JBool b) = (if b then ''true'' else ''false'')"
| "js_toString (JNum n) = n"
| "js_toString (JStr s) = s"
| "js_toString (JArr xs) =
     join_comma (map (\<lambda>x. if x = JUndefined \<or> x = JNull then [] else js_toString x) xs)"
| "js_toString (JObj kvs) = ''[object Object]''"

text \<open>An \<^verbatim>\<open>Error\<close> object, by its \<^verbatim>\<open>message\<close>.\<close>

datatype js_error = Error string

fun message :: "js_error \<Rightarrow> string" where
  "message (Error m) = m"

section \<open>Error classification\<close>

text \<open>\<^verbatim>\<open>isTransport\<close> in the \<^verbatim>\<open>catch\<close> of \<^verbatim>\<open>doInitialize\<close>.\<close>

definition isTransport :: "js_error \<Rightarrow> bool" where
  "isTransport err =
     (includes_str (message err) ''No transport found'' \<or> includes_str (message err) ''POST 400'')"

text \<open>\<^verbatim>\<open>isTransient\<close> in the \<^verbatim>\<open>catch\<close> of \<^verbatim>\<open>mcpToolCall\<close>.\<close>

definition isTransient :: "js_error \<Rightarrow> bool" where
  "isTransient err =
     (includes_str (message err) ''No transport found'' \<or>
      includes_str (message err) ''POST 400'' \<or>
      includes_str (message err) ''SSE'' \<or>
      includes_str (message err) ''Transport never'')"

text \<open>
  \<^verbatim>\<open>new Error(`MCP error ${e.code}: ${e.message}`)\<close> for the \<^verbatim>\<open>error\<close> member
  \<open>e\<close> of a response.
\<close>

definition mcp_error :: "jv \<Rightarrow> js_error" where
  "mcp_error e =
     Error (''MCP error '' @ js_toString (js_get e ''code'') @ '': '' @ js_toString (js_get e ''message''))"

section \<open>Requests and their outcomes\<close>

text \<open>
  What the promise of \<^verbatim>\<open>postRpc\<close> settles to: resolved with the response frame, or
  rejected with an error.
\<close>

datatype rpc_outcome = Responds jv | Rejects js_error

text \<open>
  The two errors \<^verbatim>\<open>postRpc\<close> builds itself. The status of an HTTP response is a
  whole number of three digits, which \<^verbatim>\<open>${r.status}\<close> prints in decimal.
\<close>

definition rpc_timeout_error :: "string \<Rightarrow> js_error" where
  "rpc_timeout_error method = Error (''Timeout waiting for '' @ method @ '' response'')"

definition post_status_error :: "nat \<Rightarrow> string \<Rightarrow> js_error" where
  "post_status_error status body = Error (''POST '' @ dec_nat status @ '': '' @ body)"

section \<open>Session State Machine: the initialize and call chain\<close>

datatype phase = Connecting | Initializing | Calling | Done

text \<open>What the chain does to the outside, each with the time it happens at.\<close>

datatype action =
    Backoff rat
  | PostRpc_sent int string jv
  | Notify_sent string
  | Pause rat

text \<open>
  How \<^verbatim>\<open>doInitialize\<close> ends: it calls \<^verbatim>\<open>settle(resolveOuter, v)\<close> and returns, it
  calls \<^verbatim>\<open>settle(rejectOuter, e)\<close> and returns, or it throws \<open>e\<close> (its promise rejects
  and the \<^verbatim>\<open>catch\<close> of the endpoint handler calls \<^verbatim>\<open>settle(rejectOuter, e)\<close>).
  \<open>Blocked\<close>: the environment has not answered the last request yet.
\<close>

datatype completion = Resolves jv | Rejected js_error | Thrown js_error | Blocked

record init_run =
  finish :: completion
  elapsed :: rat
  actions :: "(rat \<times> action) list"
  phase_reached :: phase

definition init_params :: jv where
  "init_params = JObj [(''protocolVersion'', JStr ''2024-11-05''),
                       (''capabilities'', JObj []),
                       (''clientInfo'', JObj [(''name'', JStr ''meta-ads-dashboard''),
                                              (''version'', JStr ''1.0.0'')])]"

definition call_method :: "string \<Rightarrow> string" where
  "call_method toolName = (if toolName = ''__tools_list__'' then ''tools/list'' else ''tools/call'')"

definition call_params :: "string \<Rightarrow> jv \<Rightarrow> jv" where
  "call_params toolName toolArgs =
     (if toolName = ''__tools_list__'' then JObj []
      else JObj [(''name'', JStr toolName),
                 (''arguments'', if truthy toolArgs then toolArgs else JObj [])])"

text \<open>
  \<^verbatim>\<open>content.find(c => c.type === 'text')\<close> over the elements of an array: the first
  element whose \<^verbatim>\<open>type\<close> is the string \<^verbatim>\<open>text\<close>. Reading \<^verbatim>\<open>type\<close> of a
  \<^verbatim>\<open>null\<close> element throws a TypeError (the message is the engine's).
\<close>

fun find_text :: "jv list \<Rightarrow> js_error + jv option" where
  "find_text [] = Inr None"
| "find_text (c # cs) =
     (if nullish c then Inl (Error ''Cannot read properties of null (reading 'type')'')
      else if js_get c ''type'' = JStr ''text'' then Inr (Some c)
      else find_text cs)"

text \<open>
  The result extraction of \<^verbatim>\<open>doInitialize\<close>, for a response \<open>result\<close> without an
  \<^verbatim>\<open>error\<close>. \<open>parse\<close> is \<^verbatim>\<open>JSON.parse\<close> (no value: it throws). \<open>Inr v\<close>:
  \<^verbatim>\<open>settle(resolveOuter, v)\<close>; \<open>Inl e\<close>: a TypeError thrown on the way (the message is
  the engine's).
\<close>

definition extract_result :: "(string \<Rightarrow> jv option) \<Rightarrow> jv \<Rightarrow> js_error + jv" where
  "extract_result parse result =
     (let r = js_get result ''result'';
          content = (if nullish r then JUndefined else js_get r ''content'');
          fallback = (if truthy r then r else result)
      in if truthy content then
           (case content of
              JArr xs \<Rightarrow>
                (case find_text xs of
                   Inl e \<Rightarrow> Inl e
                 | Inr (Some tc) \<Rightarrow>
                     (case parse (js_toString (js_get tc ''text'')) of
                        Some v \<Rightarrow> Inr v
                      | None \<Rightarrow> Inr (JObj [(''data'', js_get tc ''text'')]))
                 | Inr None \<Rightarrow> Inr fallback)
            | _ \<Rightarrow> Inl (Error ''result.result.content.find is not a function''))
         else Inr fallback)"

text \<open>
  The \<^verbatim>\<open>try\<close> block up to the check of the initialize response: the error the
  \<^verbatim>\<open>catch\<close> receives, if any.
\<close>

definition init_try :: "rpc_outcome \<Rightarrow> js_error option" where
  "init_try out =
     (case out of
        Rejects err \<Rightarrow> Some err
      | Responds resp \<Rightarrow>
          (if truthy (js_get resp ''error'') then Some (mcp_error (js_get resp ''error'')) else None))"

text \<open>
  The \<^verbatim>\<open>try\<close> block from the answer to the tool call on: the chain ends, or an error
  reaches the \<^verbatim>\<open>catch\<close>; with the value of \<^verbatim>\<open>phase\<close>.
\<close>

datatype call_step = Call_caught js_error phase | Call_returned completion phase

definition call_try :: "(string \<Rightarrow> jv option) \<Rightarrow> rpc_outcome \<Rightarrow> call_step" where
  "call_try parse out =
     (case out of
        Rejects err \<Rightarrow> Call_caught err Calling
      | Responds result \<Rightarrow>
          (if truthy (js_get result ''error'')
           then Call_returned (Rejected (mcp_error (js_get result ''error''))) Calling
           else (case extract_result parse result of
                   Inl e \<Rightarrow> Call_caught e Done
                 | Inr v \<Rightarrow> Call_returned (Resolves v) Done)))"

text \<open>\<^verbatim>\<open>throw lastErr || new Error('Transport never became ready')\<close>\<close>

definition deadline_error :: "js_error option \<Rightarrow> js_error" where
  "deadline_error lastErr =
     (case lastErr of Some e \<Rightarrow> e | None \<Rightarrow> Error ''Transport never became ready'')"

text \<open>\<^verbatim>\<open>delay = Math.min(delay * 1.5, 3000)\<close>\<close>

definition next_delay :: "rat \<Rightarrow> rat" where
  "next_delay delay = min (delay * (3 / 2)) 3000"

text \<open>
  The \<^verbatim>\<open>while\<close> loop of \<^verbatim>\<open>doInitialize\<close>. \<open>now\<close> is \<^verbatim>\<open>Date.now() - start\<close> in
  milliseconds. The environment is the list of answers to the requests the loop sends,
  in the order it sends them: for each the time from sending to settling of the
  \<^verbatim>\<open>postRpc\<close> promise (with whatever the timer before it overran) and the outcome.
\<close>

fun init_loop ::
  "string \<Rightarrow> jv \<Rightarrow> (string \<Rightarrow> jv option) \<Rightarrow> (rat \<times> rpc_outcome) list \<Rightarrow>
   rat \<Rightarrow> rat \<Rightarrow> js_error option \<Rightarrow> phase \<Rightarrow> (rat \<times> action) list \<Rightarrow> init_run" where
  "init_loop toolName toolArgs parse [] now delay lastErr ph acts =
     (if now < 20000 then
        \<lparr>finish = Blocked, elapsed = now + delay,
         actions = acts @ [(now, Backoff delay),
                           (now + delay, PostRpc_sent 1 ''initialize'' init_params)],
         phase_reached = ph\<rparr>
      else
        \<lparr>finish = Thrown (deadline_error lastErr), elapsed = now, actions = acts,
         phase_reached = ph\<rparr>)"
| "init_loop toolName toolArgs parse ((lat1, out1) # rest1) now delay lastErr ph acts =
     (if now < 20000 then
        (let t1 = now + delay + lat1;
             acts1 = acts @ [(now, Backoff delay),
                             (now + delay, PostRpc_sent 1 ''initialize'' init_params)]
         in case init_try out1 of
              Some err \<Rightarrow>
                (if isTransport err
                 then init_loop toolName toolArgs parse rest1 t1 (next_delay delay) (Some err) ph acts1
                 else \<lparr>finish = Thrown err, elapsed = t1, actions = acts1, phase_reached = ph\<rparr>)
            | None \<Rightarrow>
                (let acts2 = acts1 @ [(t1, Notify_sent ''notifications/initialized''),
                                      (t1, Pause 500),
                                      (t1 + 500, PostRpc_sent 2 (call_method toolName)
                                                   (call_params toolName toolArgs))]
                 in case rest1 of
                      [] \<Rightarrow> \<lparr>finish = Blocked, elapsed = t1 + 500, actions = acts2,
                             phase_reached = Calling\<rparr>
                    | (lat2, out2) # rest2 \<Rightarrow>
                        (let t2 = t1 + 500 + lat2
                         in case call_try parse out2 of
                              Call_returned c ph' \<Rightarrow>
                                \<lparr>finish = c, elapsed = t2, actions = acts2, phase_reached = ph'\<rparr>
                            | Call_caught err ph' \<Rightarrow>
                                (if isTransport err
                                 then init_loop toolName toolArgs parse rest2 t2 (next_delay delay)
                                        (Some err) ph' acts2
                                 else \<lparr>finish = Thrown err, elapsed = t2, actions = acts2,
                                       phase_reached = ph'\<rparr>))))
      else
        \<lparr>finish = Thrown (deadline_error lastErr), elapsed = now, actions = acts,
         phase_reached = ph\<rparr>)"

text \<open>\<^verbatim>\<open>doInitialize()\<close>: \<^verbatim>\<open>start = Date.now()\<close>, \<^verbatim>\<open>delay = 500\<close>, \<^verbatim>\<open>lastErr = null\<close>.\<close>

definition doInitialize ::
  "string \<Rightarrow> jv \<Rightarrow> (string \<Rightarrow> jv option) \<Rightarrow> (rat \<times> rpc_outcome) list \<Rightarrow> init_run" where
  "doInitialize toolName toolArgs parse answers =
     init_loop toolName toolArgs parse answers 0 500 None Initializing []"

text \<open>The backoff delays of a run, in order.\<close>

fun backoffs :: "(rat \<times> action) list \<Rightarrow> rat list" where
  "backoffs [] = []"
| "backoffs ((t, Backoff d) # as) = d # backoffs as"
| "backoffs (a # as) = backoffs as"

text \<open>The times at which the backoff waits of a run begin.\<close>

fun backoff_starts :: "(rat \<times> action) list \<Rightarrow> rat list" where
  "backoff_starts [] = []"
| "backoff_starts ((t, Backoff d) # as) = t # backoff_starts as"
| "backoff_starts (a # as) = backoff_starts as"

text \<open>The error of a POST the server answers with 400 while the session is not wired up.\<close>

definition not_ready :: js_error where
  "not_ready = Error ''POST 400: No transport found for sessionId''"

section \<open>Session State Machine: settlement\<close>

text \<open>
  What a session attempt does to the outside when it settles, in order:
  \<^verbatim>\<open>es.close()\<close>, \<^verbatim>\<open>clearTimeout(timer)\<close>, and the call of \<^verbatim>\<open>resolveOuter\<close> or
  \<^verbatim>\<open>rejectOuter\<close>.
\<close>

datatype effect = CloseStream | ClearTimer | ResolveOuter jv | RejectOuter js_error

text \<open>
  The variables of one \<^verbatim>\<open>mcpSessionCall\<close>: \<open>es_open\<close> is \<^verbatim>\<open>es !== null\<close>,
  \<open>timer_set\<close> is \<^verbatim>\<open>timer !== null\<close>.
\<close>

record session =
  settled :: bool
  es_open :: bool
  timer_set :: bool
  phase :: phase
  msgUrl :: "string option"
  effects :: "effect list"

text \<open>\<^verbatim>\<open>settle(fn, val)\<close>; the last argument is the call \<^verbatim>\<open>fn(val)\<close>.\<close>

definition settle :: "session \<Rightarrow> effect \<Rightarrow> session" where
  "settle s call =
     (if settled s then s
      else
        (let s1 = s\<lparr>settled := True\<rparr>;
             s2 = (if es_open s1
                   then s1\<lparr>effects := effects s1 @ [CloseStream], es_open := False\<rparr> else s1);
             s3 = (if timer_set s2
                   then s2\<lparr>effects := effects s2 @ [ClearTimer], timer_set := False\<rparr> else s2)
         in s3\<lparr>effects := effects s3 @ [call]\<rparr>))"

text \<open>
  The state when the promise executor has run: the 60000 ms timer is set, the
  EventSource is created, \<^verbatim>\<open>phase = 'connecting'\<close>.
\<close>

definition session_init :: session where
  "session_init =
     \<lparr>settled = False, es_open = True, timer_set = True, phase = Connecting,
      msgUrl = None, effects = []\<rparr>"

text \<open>
  What can happen to a session attempt: the 60000 ms timer fires; the stream delivers an
  \<^verbatim>\<open>endpoint\<close> event with its data or an \<^verbatim>\<open>error\<close> event with its message (if it has
  one); the chain \<^verbatim>\<open>doInitialize()\<close> that an endpoint event started comes to its end,
  the environment having given it these answers.
\<close>

datatype sess_event =
    SessionTimer
  | EsEndpoint string
  | EsError "string option"
  | ChainEnds "(rat \<times> rpc_outcome) list"

text \<open>How the end of the chain reaches \<^verbatim>\<open>settle\<close>.\<close>

definition chain_settles :: "session \<Rightarrow> init_run \<Rightarrow> session" where
  "chain_settles s run =
     (let s' = s\<lparr>phase := phase_reached run\<rparr>
      in case finish run of
           Resolves v \<Rightarrow> settle s' (ResolveOuter v)
         | Rejected e \<Rightarrow> settle s' (RejectOuter e)
         | Thrown e \<Rightarrow> settle s' (RejectOuter e)
         | Blocked \<Rightarrow> s')"

text \<open>
  The handlers. A cleared timer does not fire and a closed EventSource delivers no
  event; the chain runs only after an endpoint event has started it.
\<close>

definition on_event ::
  "string \<Rightarrow> jv \<Rightarrow> (string \<Rightarrow> jv option) \<Rightarrow> session \<Rightarrow> sess_event \<Rightarrow> session" where
  "on_event toolName toolArgs parse s ev =
     (case ev of
        SessionTimer \<Rightarrow>
          (if timer_set s then settle s (RejectOuter (Error ''Session timeout'')) else s)
      | EsEndpoint d \<Rightarrow>
          (if es_open s
           then s\<lparr>msgUrl := Some (''https://apps.gomarble.ai'' @ d), phase := Initializing\<rparr>
           else s)
      | EsError m \<Rightarrow>
          (if es_open s \<and> phase s = Connecting
           then settle s (RejectOuter (Error (''SSE connection failed: '' @
                  (case m of Some x \<Rightarrow> (if x = [] then ''unknown'' else x) | None \<Rightarrow> ''unknown''))))
           else s)
      | ChainEnds answers \<Rightarrow>
          (if msgUrl s = None then s
           else chain_settles s (doInitialize toolName toolArgs parse answers)))"

definition run_session ::
  "string \<Rightarrow> jv \<Rightarrow> (string \<Rightarrow> jv option) \<Rightarrow> sess_event list \<Rightarrow> session" where
  "run_session toolName toolArgs parse evs =
     foldl (on_event toolName toolArgs parse) session_init evs"

text \<open>What the caller's promise settles to: the first call of its resolve or reject.\<close>

fun promise_of :: "effect list \<Rightarrow> (js_error + jv) option" where
  "promise_of [] = None"
| "promise_of (ResolveOuter v # es) = Some (Inr v)"
| "promise_of (RejectOuter e # es) = Some (Inl e)"
| "promise_of (x # es) = promise_of es"

text \<open>
  \<^verbatim>\<open>mcpSessionCall(toolName, toolArgs)\<close>: a fresh session, and what its promise settles
  to under the events the environment brings (nothing if they do not settle it).
\<close>

definition mcpSessionCall ::
  "string \<Rightarrow> jv \<Rightarrow> (string \<Rightarrow> jv option) \<Rightarrow> sess_event list \<Rightarrow> (js_error + jv) option" where
  "mcpSessionCall toolName toolArgs parse evs =
     promise_of (effects (run_session toolName toolArgs parse evs))"

section \<open>Session Retry Wrapper\<close>

text \<open>
  A run of \<^verbatim>\<open>mcpToolCall\<close>: what its promise settles to (nothing if a session never
  settles), the delays it waited between attempts, and the number of sessions it ran.
\<close>

record tool_run =
  outcome :: "(js_error + jv) option"
  waits :: "int list"
  attempts :: nat

text \<open>
  The \<^verbatim>\<open>for\<close> loop of \<^verbatim>\<open>mcpToolCall\<close> from \<^verbatim>\<open>attempt\<close> on; \<open>sess i\<close> is what the
  session of attempt \<open>i\<close> settles to. A loop that ends without a \<^verbatim>\<open>return\<close> makes the
  function return \<^verbatim>\<open>undefined\<close>.
\<close>

function retry_loop :: "(nat \<Rightarrow> (js_error + jv) option) \<Rightarrow> int \<Rightarrow> nat \<Rightarrow> tool_run" where
  "retry_loop sess maxRetries attempt =
     (if int attempt < maxRetries then
        (case sess attempt of
           None \<Rightarrow> \<lparr>outcome = None, waits = [], attempts = 1\<rparr>
         | Some (Inr v) \<Rightarrow> \<lparr>outcome = Some (Inr v), waits = [], attempts = 1\<rparr>
         | Some (Inl err) \<Rightarrow>
             (if isTransient err \<and> int attempt < maxRetries - 1
              then (let r = retry_loop sess maxRetries (attempt + 1)
                    in r\<lparr>waits := 3000 * (int attempt + 1) # waits r, attempts := attempts r + 1\<rparr>)
              else \<lparr>outcome = Some (Inl err), waits = [], attempts = 1\<rparr>))
      else \<lparr>outcome = Some (Inr JUndefined), waits = [], attempts = 0\<rparr>)"
  by pat_completeness auto
termination
  by (relation "measure (\<lambda>(sess, maxRetries, attempt). nat (maxRetries - int attempt))") auto

declare retry_loop.simps [simp del]

text \<open>
  \<^verbatim>\<open>mcpToolCall(toolName, toolArgs, maxRetries)\<close>; \<open>env i\<close> is what happens to the
  session of attempt \<open>i\<close>.
\<close>

definition mcpToolCall ::
  "string \<Rightarrow> jv \<Rightarrow> int \<Rightarrow> (string \<Rightarrow> jv option) \<Rightarrow> (nat \<Rightarrow> sess_event list) \<Rightarrow> tool_run" where
  "mcpToolCall toolName toolArgs maxRetries parse env =
     retry_loop (\<lambda>i. mcpSessionCall toolName toolArgs parse (env i)) maxRetries 0"

section \<open>Request Correlator\<close>

text \<open>
  The state \<^verbatim>\<open>postRpc\<close> and the \<^verbatim>\<open>message\<close> listener share. Every call of
  \<^verbatim>\<open>postRpc\<close> makes a request, numbered in order of creation, with its own promise
  and its own 30000 ms timer. \<open>requests\<close> holds the id and the method of each request,
  \<open>pending\<close> is the \<^verbatim>\<open>Map\<close> (from an id to the request whose \<^verbatim>\<open>resolve\<close> it
  stores), \<open>armed\<close> the requests whose timer is set and has neither fired nor been
  cleared, and \<open>calls\<close> the calls of the promises' \<^verbatim>\<open>resolve\<close> and \<^verbatim>\<open>reject\<close>, in
  order.
\<close>

record correlator =
  requests :: "(jv \<times> string) list"
  pending :: "jv \<rightharpoonup> nat"
  armed :: "nat set"
  calls :: "(nat \<times> rpc_outcome) list"

definition correlator_init :: correlator where
  "correlator_init = \<lparr>requests = [], pending = Map.empty, armed = {}, calls = []\<rparr>"

text \<open>
  What can happen: \<^verbatim>\<open>postRpc(id, method, params)\<close> is called; the stream delivers a
  \<^verbatim>\<open>message\<close> event, whose data parses to a value or does not parse; the timer of a
  request fires; the POST of a request is answered with a status and a body; the POST
  of a request fails.
\<close>

datatype corr_event =
    PostRpc jv string
  | Message "jv option"
  | TimerFires nat
  | PostStatus nat nat string
  | FetchFails nat js_error

text \<open>An array or an object just parsed is no key of the \<^verbatim>\<open>Map\<close>.\<close>

fun is_reference :: "jv \<Rightarrow> bool" where
  "is_reference (JArr xs) = True"
| "is_reference (JObj kvs) = True"
| "is_reference v = False"

definition request_id :: "correlator \<Rightarrow> nat \<Rightarrow> jv" where
  "request_id c h = fst (requests c ! h)"

definition request_method :: "correlator \<Rightarrow> nat \<Rightarrow> string" where
  "request_method c h = snd (requests c ! h)"

text \<open>
  \<^verbatim>\<open>clearTimeout(timeout); pending.delete(id); reject(err)\<close> for request \<open>h\<close>, as the
  two failure paths of the POST do.
\<close>

definition post_fails :: "correlator \<Rightarrow> nat \<Rightarrow> js_error \<Rightarrow> correlator" where
  "post_fails c h err =
     c\<lparr>armed := armed c - {h},
       pending := (pending c)(request_id c h := None),
       calls := calls c @ [(h, Rejects err)]\<rparr>"

definition corr_step :: "correlator \<Rightarrow> corr_event \<Rightarrow> correlator" where
  "corr_step c ev =
     (case ev of
        PostRpc idv method \<Rightarrow>
          c\<lparr>requests := requests c @ [(idv, method)],
            armed := insert (length (requests c)) (armed c),
            pending := (pending c)(idv \<mapsto> length (requests c))\<rparr>
      | Message None \<Rightarrow> c
      | Message (Some data) \<Rightarrow>
          (if nullish data then c
           else if nullish (js_get data ''id'') \<or> is_reference (js_get data ''id'') then c
           else (case pending c (js_get data ''id'') of
                   None \<Rightarrow> c
                 | Some h \<Rightarrow>
                     c\<lparr>pending := (pending c)(js_get data ''id'' := None),
                       armed := armed c - {h},
                       calls := calls c @ [(h, Responds data)]\<rparr>))
      | TimerFires h \<Rightarrow>
          (if h \<in> armed c
           then c\<lparr>armed := armed c - {h},
                  pending := (pending c)(request_id c h := None),
                  calls := calls c @ [(h, Rejects (rpc_timeout_error (request_method c h)))]\<rparr>
           else c)
      | PostStatus h status body \<Rightarrow>
          (if h < length (requests c) \<and> status \<noteq> 200 \<and> status \<noteq> 202
           then post_fails c h (post_status_error status body) else c)
      | FetchFails h err \<Rightarrow>
          (if h < length (requests c) then post_fails c h err else c))"

definition run_correlator :: "corr_event list \<Rightarrow> correlator" where
  "run_correlator evs = foldl corr_step correlator_init evs"

text \<open>The calls of the promise of request \<open>h\<close>.\<close>

definition calls_of :: "correlator \<Rightarrow> nat \<Rightarrow> rpc_outcome list" where
  "calls_of c h = map snd (filter (\<lambda>x. fst x = h) (calls c))"

text \<open>An event of the POST of a request, as opposed to a frame, a timer or a new request.\<close>

fun is_post_event :: "corr_event \<Rightarrow> bool" where
  "is_post_event (PostStatus h status body) = True"
| "is_post_event (FetchFails h err) = True"
| "is_post_event ev = False"

section \<open>Call Serializer\<close>

text \<open>
  A request to \<^verbatim>\<open>POST /api/mcp/tool\<close>: who asks (the \<^verbatim>\<open>res\<close> object), and the
  \<^verbatim>\<open>name\<close> and \<^verbatim>\<open>arguments\<close> of the body.
\<close>

record tool_request =
  caller :: nat
  name :: jv
  arguments :: jv

text \<open>
  What the outside sees: a session chain started for a caller, and a response sent to
  a caller with its status and body.
\<close>

datatype queue_log = Started nat | Responded nat nat jv

text \<open>
  \<open>waiting\<close> are the callbacks chained on \<^verbatim>\<open>callQueue\<close> that have not run yet, in the
  order they were chained; \<open>running\<close> is the callback that awaits \<^verbatim>\<open>mcpToolCall\<close>.
\<close>

record serializer =
  waiting :: "tool_request list"
  running :: "tool_request option"
  history :: "queue_log list"

definition serializer_init :: serializer where
  "serializer_init = \<lparr>waiting = [], running = None, history = []\<rparr>"

text \<open>
  What can happen: a request arrives; the \<^verbatim>\<open>mcpToolCall\<close> that the running callback
  awaits settles.
\<close>

datatype queue_event = Arrives tool_request | Settles "js_error + jv"

text \<open>The next callback of the chain runs when the promise before it is fulfilled.\<close>

definition start_next :: "serializer \<Rightarrow> serializer" where
  "start_next q =
     (case waiting q of
        [] \<Rightarrow> q\<lparr>running := None\<rparr>
      | r # rs \<Rightarrow> q\<lparr>waiting := rs, running := Some r, history := history q @ [Started (caller r)]\<rparr>)"

definition queue_step :: "serializer \<Rightarrow> queue_event \<Rightarrow> serializer" where
  "queue_step q ev =
     (case ev of
        Arrives r \<Rightarrow>
          (if \<not> truthy (name r)
           then q\<lparr>history := history q @
                    [Responded (caller r) 400 (JObj [(''error'', JStr ''Missing tool name'')])]\<rparr>
           else (case running q of
                   None \<Rightarrow> start_next (q\<lparr>waiting := waiting q @ [r]\<rparr>)
                 | Some r' \<Rightarrow> q\<lparr>waiting := waiting q @ [r]\<rparr>))
      | Settles res \<Rightarrow>
          (case running q of
             None \<Rightarrow> q
           | Some r \<Rightarrow>
               start_next (q\<lparr>history := history q @
                  [case res of
                     Inr v \<Rightarrow> Responded (caller r) 200 v
                   | Inl e \<Rightarrow> Responded (caller r) 500 (JObj [(''error'', JStr (message e))])]\<rparr>)))"

definition run_queue :: "queue_event list \<Rightarrow> serializer" where
  "run_queue evs = foldl queue_step serializer_init evs"

text \<open>The callers whose requests carried a tool name, in the order of arrival.\<close>

fun submitted :: "queue_event list \<Rightarrow> nat list" where
  "submitted [] = []"
| "submitted (Arrives r # evs) = (if truthy (name r) then caller r # submitted evs else submitted evs)"
| "submitted (Settles res # evs) = submitted evs"

text \<open>The history without the responses to requests that had no tool name.\<close>

fun session_history :: "queue_log list \<Rightarrow> queue_log list" where
  "session_history [] = []"
| "session_history (Responded c status body # xs) =
     (if status = 400 then session_history xs else Responded c status body # session_history xs)"
| "session_history (x # xs) = x # session_history xs"

text \<open>
  A history in which the chains run one after the other for the callers \<open>cs\<close> in
  order: each is started, then answered to its own caller with 200 or 500, before the
  next is started; the last may still be running (\<open>busy\<close>).
\<close>

fun serial :: "nat list \<Rightarrow> bool \<Rightarrow> queue_log list \<Rightarrow> bool" where
  "serial [] busy xs = (xs = [] \<and> \<not> busy)"
| "serial (c # cs) busy xs =
     (if cs = [] \<and> busy then xs = [Started c]
      else (case xs of
              Started c' # Responded c'' status body # xs' \<Rightarrow>
                c' = c \<and> c'' = c \<and> (status = 200 \<or> status = 500) \<and> serial cs busy xs'
            | _ \<Rightarrow> False))"

section \<open>The bearer credential\<close>

text \<open>
  \<^verbatim>\<open>API_KEY\<close>, and the requests sent with the \<^verbatim>\<open>Authorization\<close> header each carried.
\<close>

datatype outgoing = Stream_connect | Rpc_post int string | Notify_post string

record bridge =
  API_KEY :: jv
  sent :: "(outgoing \<times> string) list"

text \<open>
  What can happen: a request goes out (the fetch of the EventSource, the fetch of
  \<^verbatim>\<open>postRpc\<close> or of \<^verbatim>\<open>notify\<close>); \<^verbatim>\<open>POST /api/mcp/reconnect\<close> arrives with the value
  of \<^verbatim>\<open>req.body?.apiKey\<close>.
\<close>

datatype bridge_event = Goes_out outgoing | Reconnect jv

definition bridge_step :: "bridge \<Rightarrow> bridge_event \<Rightarrow> bridge" where
  "bridge_step b ev =
     (case ev of
        Goes_out r \<Rightarrow> b\<lparr>sent := sent b @ [(r, ''Bearer '' @ js_toString (API_KEY b))]\<rparr>
      | Reconnect k \<Rightarrow> (if truthy k then b\<lparr>API_KEY := k\<rparr> else b))"

definition run_bridge :: "jv \<Rightarrow> bridge_event list \<Rightarrow> bridge" where
  "run_bridge key evs = foldl bridge_step \<lparr>API_KEY = key, sent = []\<rparr> evs"

section \<open>Invariants, schedules and example inputs\<close>

subsection \<open>Settlement: the two states of an attempt\<close>

text \<open>The call of \<^verbatim>\<open>resolveOuter\<close> or \<^verbatim>\<open>rejectOuter\<close> among the effects.\<close>

fun is_call :: "effect \<Rightarrow> bool" where
  "is_call (ResolveOuter v) = True"
| "is_call (RejectOuter e) = True"
| "is_call x = False"

text \<open>
  An attempt that has settled: the stream was closed, the timer cleared and the
  caller's promise called, each once and in this order. An attempt that has not:
  nothing has happened to the outside.
\<close>

definition settled_once :: "session \<Rightarrow> bool" where
  "settled_once s =
     (settled s \<and> \<not> es_open s \<and> \<not> timer_set s \<and>
      (\<exists>x. is_call x \<and> effects s = [CloseStream, ClearTimer, x]))"

definition untouched :: "session \<Rightarrow> bool" where
  "untouched s = (\<not> settled s \<and> es_open s \<and> timer_set s \<and> effects s = [])"

subsection \<open>Runs of the polling loop against a transport that is not ready\<close>

text \<open>
  Every answer is a failure the \<^verbatim>\<open>catch\<close> classifies as transport-not-ready, and
  takes no negative time.
\<close>

definition all_not_ready :: "(rat \<times> rpc_outcome) list \<Rightarrow> bool" where
  "all_not_ready answers =
     list_all (\<lambda>(lat, out). 0 \<le> lat \<and> (case init_try out of Some e \<Rightarrow> isTransport e | None \<Rightarrow> False))
       answers"

text \<open>The backoff schedule in closed form: 500 ms times 1.5 to the \<open>k\<close>, capped at 3000 ms.\<close>

definition backoff_delay :: "nat \<Rightarrow> rat" where
  "backoff_delay k = min (500 * (3 / 2) ^ k) 3000"

text \<open>The delays of \<open>n\<close> polls in a row, the first being \<open>d\<close>.\<close>

fun delays_from :: "rat \<Rightarrow> nat \<Rightarrow> rat list" where
  "delays_from d 0 = []"
| "delays_from d (Suc n) = d # delays_from (next_delay d) n"

text \<open>The value of \<^verbatim>\<open>lastErr\<close> after the polls answered by \<open>xs\<close>, all caught.\<close>

definition last_err :: "js_error option \<Rightarrow> (rat \<times> rpc_outcome) list \<Rightarrow> js_error option" where
  "last_err lastErr xs = (if xs = [] then lastErr else init_try (snd (last xs)))"

subsection \<open>Rounds of the polling loop that end in the \<^verbatim>\<open>catch\<close>\<close>

text \<open>
  The answers one pass through the loop body uses up when it ends in the \<^verbatim>\<open>catch\<close>
  with an error classified transport-not-ready, so that the loop goes on: either
  the answer to the initialize request gives such an error, or the initialize request
  succeeds and the answer to the tool call gives one. No answer takes negative time.
\<close>

fun caught_round :: "(string \<Rightarrow> jv option) \<Rightarrow> (rat \<times> rpc_outcome) list \<Rightarrow> bool" where
  "caught_round parse [(lat1, out1)] =
     (0 \<le> lat1 \<and> (case init_try out1 of Some e \<Rightarrow> isTransport e | None \<Rightarrow> False))"
| "caught_round parse [(lat1, out1), (lat2, out2)] =
     (0 \<le> lat1 \<and> 0 \<le> lat2 \<and> init_try out1 = None \<and>
      (case call_try parse out2 of
         Call_caught e ph \<Rightarrow> isTransport e
       | Call_returned c ph \<Rightarrow> False))"
| "caught_round parse r = False"

text \<open>The time such a pass takes after its backoff wait.\<close>

fun round_time :: "(rat \<times> rpc_outcome) list \<Rightarrow> rat" where
  "round_time [(lat1, out1)] = lat1"
| "round_time [(lat1, out1), (lat2, out2)] = lat1 + 500 + lat2"
| "round_time r = 0"

text \<open>
  The value of \<^verbatim>\<open>Date.now() - start\<close> after these passes, the first beginning at
  \<open>now\<close> with the backoff delay \<open>delay\<close>.
\<close>

fun rounds_end :: "(rat \<times> rpc_outcome) list list \<Rightarrow> rat \<Rightarrow> rat \<Rightarrow> rat" where
  "rounds_end [] now delay = now"
| "rounds_end (r # rs) now delay = rounds_end rs (now + delay + round_time r) (next_delay delay)"

subsection \<open>Protocol errors\<close>

text \<open>
  The \<^verbatim>\<open>error\<close> member of the first response that carries one, when the answers
  are a response to the initialize request and, if that has no error, a response to
  the tool call.
\<close>

fun protocol_error :: "(rat \<times> rpc_outcome) list \<Rightarrow> jv option" where
  "protocol_error ((lat1, Responds resp) # rest) =
     (if truthy (js_get resp ''error'') then Some (js_get resp ''error'')
      else (case rest of
              (lat2, Responds result) # rest2 \<Rightarrow>
                (if truthy (js_get result ''error'') then Some (js_get result ''error'') else None)
            | _ \<Rightarrow> None))"
| "protocol_error answers = None"

text \<open>The delays \<^verbatim>\<open>3000 * (attempt + 1)\<close> after the attempts \<open>0, \<dots>, k - 1\<close>.\<close>

definition retry_delays :: "nat \<Rightarrow> int list" where
  "retry_delays k = map (\<lambda>i. 3000 * (int i + 1)) [0..<k]"

subsection \<open>Example responses\<close>

definition init_ok :: jv where
  "init_ok = JObj [(''jsonrpc'', JStr ''2.0''), (''id'', JNum ''1''), (''result'', JObj [])]"

definition sse_closed :: jv where
  "sse_closed = JObj [(''jsonrpc'', JStr ''2.0''), (''id'', JNum ''2''),
     (''error'', JObj [(''code'', JNum ''-32000''), (''message'', JStr ''SSE stream closed'')])]"

definition bad_key :: jv where
  "bad_key = JObj [(''jsonrpc'', JStr ''2.0''), (''id'', JNum ''1''),
     (''error'', JObj [(''code'', JNum ''-32000''), (''message'', JStr ''bad key'')])]"

subsection \<open>Example tool call responses\<close>


definition tools_reply :: jv where
  "tools_reply = JObj [(''jsonrpc'', JStr ''2.0''), (''id'', JNum ''2''),
     (''result'', JObj [(''tools'', JArr [])])]"


subsection \<open>The invariant of the correlator\<close>

text \<open>A frame whose id no request carries.\<close>

definition stray_frame :: jv where
  "stray_frame = JObj [(''jsonrpc'', JStr ''2.0''), (''id'', JNum ''7''), (''result'', JObj [])]"


text \<open>
  A request in the \<^verbatim>\<open>Map\<close> is there under its own id and its timer is armed; a
  request whose timer is armed exists and its promise has not been called; only
  requests that exist have been called.
\<close>

definition corr_inv :: "correlator \<Rightarrow> bool" where
  "corr_inv c =
     ((\<forall>idv h. pending c idv = Some h \<longrightarrow> h \<in> armed c \<and> request_id c h = idv) \<and>
      (\<forall>h \<in> armed c. h < length (requests c) \<and> calls_of c h = []) \<and>
      (\<forall>x \<in> set (calls c). fst x < length (requests c)))"

subsection \<open>Requests whose ids are kept apart\<close>

text \<open>The requests a sequence of events registers, in order: the id and the method of each.\<close>

fun registered :: "corr_event list \<Rightarrow> (jv \<times> string) list" where
  "registered [] = []"
| "registered (PostRpc idv m # evs) = (idv, m) # registered evs"
| "registered (ev # evs) = registered evs"

text \<open>
  An unsettled request carries this id: one whose timer is armed, so that neither a
  frame, nor its timer, nor a failure of its POST has called its promise.
\<close>

definition id_in_use :: "correlator \<Rightarrow> jv \<Rightarrow> bool" where
  "id_in_use c idv = (\<exists>h \<in> armed c. request_id c h = idv)"

text \<open>
  The events that keep the ids of the unsettled requests apart: a request is registered
  under an id that no unsettled request carries, and the POST of a request fails
  while the request is unsettled or while no unsettled request carries its id.
\<close>

definition fails_apart :: "correlator \<Rightarrow> nat \<Rightarrow> bool" where
  "fails_apart c h = (length (requests c) \<le> h \<or> h \<in> armed c \<or> \<not> id_in_use c (request_id c h))"

definition admissible :: "correlator \<Rightarrow> corr_event \<Rightarrow> bool" where
  "admissible c ev =
     (case ev of
        PostRpc idv m \<Rightarrow> \<not> id_in_use c idv
      | Message d \<Rightarrow> True
      | TimerFires h \<Rightarrow> True
      | PostStatus h status body \<Rightarrow> status = 200 \<or> status = 202 \<or> fails_apart c h
      | FetchFails h err \<Rightarrow> fails_apart c h)"

text \<open>A sequence of events each of which is such in the state it meets.\<close>

fun well_keyed :: "correlator \<Rightarrow> corr_event list \<Rightarrow> bool" where
  "well_keyed c [] = True"
| "well_keyed c (ev # evs) = (admissible c ev \<and> well_keyed (corr_step c ev) evs)"

text \<open>A call of \<^verbatim>\<open>resolve\<close>, as opposed to a call of \<^verbatim>\<open>reject\<close>.\<close>

fun is_response :: "rpc_outcome \<Rightarrow> bool" where
  "is_response (Responds data) = True"
| "is_response (Rejects e) = False"

text \<open>
  Every request whose timer is armed is in the \<^verbatim>\<open>Map\<close> under its id; the promise of
  every request whose timer is no longer armed has been called; a promise that has
  been resolved was resolved by its first call, with a frame that carries the id of
  the request, and every later call of it is a \<^verbatim>\<open>reject\<close>.
\<close>

definition keyed :: "correlator \<Rightarrow> bool" where
  "keyed c = (\<forall>h \<in> armed c. pending c (request_id c h) = Some h)"

definition called :: "correlator \<Rightarrow> bool" where
  "called c = (\<forall>h < length (requests c). h \<notin> armed c \<longrightarrow> calls_of c h \<noteq> [])"

definition resolved_first :: "correlator \<Rightarrow> bool" where
  "resolved_first c =
     (\<forall>h data. Responds data \<in> set (calls_of c h) \<longrightarrow>
        hd (calls_of c h) = Responds data \<and> js_get data ''id'' = request_id c h
        \<and> list_all (\<lambda>y. \<not> is_response y) (tl (calls_of c h)))"

subsection \<open>The invariant of the serializer\<close>

text \<open>
  The callers whose chain has been started: those that arrived with a tool name, but
  for the ones still waiting.
\<close>

definition started :: "queue_event list \<Rightarrow> serializer \<Rightarrow> nat list" where
  "started evs q = take (length (submitted evs) - length (waiting q)) (submitted evs)"

text \<open>Three requests: with a tool name, without one, and with another tool name.\<close>

definition request_a :: tool_request where
  "request_a = \<lparr>caller = 1, name = JStr ''get_ads'', arguments = JObj []\<rparr>"

definition request_b :: tool_request where
  "request_b = \<lparr>caller = 2, name = JUndefined, arguments = JObj []\<rparr>"

definition request_c :: tool_request where
  "request_c = \<lparr>caller = 3, name = JStr ''get_campaigns'', arguments = JNull\<rparr>"

definition queue_inv :: "queue_event list \<Rightarrow> serializer \<Rightarrow> bool" where
  "queue_inv evs q =
     (\<exists>finished.
        submitted evs
          = finished @ (case running q of None \<Rightarrow> [] | Some r \<Rightarrow> [caller r]) @ map caller (waiting q)
        \<and> serial (finished @ (case running q of None \<Rightarrow> [] | Some r \<Rightarrow> [caller r]))
             (running q \<noteq> None) (session_history (history q))
        \<and> (running q = None \<longrightarrow> waiting q = []))"

section \<open>Proofs: Event-Stream Transport\<close>

lemma split_nl_nonempty: "split_nl s \<noteq> []"
  by (induction s) (auto simp: cons_first_def split: list.splits)

lemma split_nl_line: "nl \<notin> set l \<Longrightarrow> split_nl (l @ nl # r) = l # split_nl r"
  by (induction l) (auto simp: cons_first_def)

lemma split_nl_no_nl: "nl \<notin> set l \<Longrightarrow> split_nl l = [l]"
  by (induction l) (auto simp: cons_first_def)

lemma split_nl_append:
  "split_nl (x @ y) = butlast (split_nl x) @ split_nl (last (split_nl x) @ y)"
proof (induction x)
  case Nil
  show ?case by simp
next
  case (Cons c x)
  show ?case
  proof (cases "c = nl")
    case True
    with Cons show ?thesis by (simp add: split_nl_nonempty)
  next
    case False
    obtain l ls where s: "split_nl x = l # ls"
      using split_nl_nonempty [of x] by (cases "split_nl x") auto
    show ?thesis
    proof (cases ls)
      case Nil
      with s Cons False show ?thesis by (simp add: cons_first_def)
    next
      case (Cons m ms)
      with s Cons.IH False show ?thesis by (simp add: cons_first_def)
    qed
  qed
qed

lemma on_line_buffer:
  "on_line (out, p\<lparr>buffer := b\<rparr>) l = (fst (on_line (out, p) l), (snd (on_line (out, p) l))\<lparr>buffer := b\<rparr>)"
  by (simp add: on_line_def)

lemma foldl_on_line_buffer:
  "foldl on_line (out, p\<lparr>buffer := b\<rparr>) ls =
     (fst (foldl on_line (out, p) ls), (snd (foldl on_line (out, p) ls))\<lparr>buffer := b\<rparr>)"
proof (induction ls arbitrary: out p)
  case Nil
  show ?case by simp
next
  case (Cons l ls)
  show ?case
    using Cons.IH [of "fst (on_line (out, p) l)" "snd (on_line (out, p) l)"]
    by (simp add: on_line_buffer)
qed

lemma on_line_keeps_buffer: "buffer (snd (on_line (out, p) l)) = buffer p"
  by (simp add: on_line_def)

lemma foldl_on_line_keeps_buffer: "buffer (snd (foldl on_line (out, p) ls)) = buffer p"
proof (induction ls arbitrary: out p)
  case Nil
  show ?case by simp
next
  case (Cons l ls)
  show ?case
    using Cons.IH [of "fst (on_line (out, p) l)" "snd (on_line (out, p) l)"]
    by (simp add: on_line_keeps_buffer)
qed

lemma on_data_pair:
  "on_data (out, p) chunk =
     foldl on_line (out, p\<lparr>buffer := last (split_nl (buffer p @ chunk))\<rparr>)
       (butlast (split_nl (buffer p @ chunk)))"
  by (simp add: on_data_def Let_def)

lemma on_data_append: "on_data (on_data acc a) b = on_data acc (a @ b)"
proof -
  obtain out p where acc: "acc = (out, p)" by (cases acc)
  define L1 where "L1 = split_nl (buffer p @ a)"
  define L2 where "L2 = split_nl (last L1 @ b)"
  define mid where "mid = foldl on_line (out, p) (butlast L1)"
  have L2ne: "L2 \<noteq> []" by (simp add: L2_def split_nl_nonempty)
  have L: "split_nl (buffer p @ a @ b) = butlast L1 @ L2"
    using split_nl_append [of "buffer p @ a" b] by (simp add: L1_def L2_def)
  have first: "on_data acc a = (fst mid, (snd mid)\<lparr>buffer := last L1\<rparr>)"
    by (simp add: acc on_data_pair L1_def [symmetric] foldl_on_line_buffer mid_def)
  have "on_data (on_data acc a) b =
        foldl on_line (fst mid, (snd mid)\<lparr>buffer := last L2\<rparr>) (butlast L2)"
    unfolding first by (simp add: on_data_pair L2_def [symmetric])
  also have "\<dots> = (fst (foldl on_line mid (butlast L2)),
                    (snd (foldl on_line mid (butlast L2)))\<lparr>buffer := last L2\<rparr>)"
    using foldl_on_line_buffer [where out = "fst mid" and p = "snd mid"] by simp
  also have "\<dots> = on_data acc (a @ b)"
    using L2ne
    by (simp add: acc on_data_pair L butlast_append foldl_on_line_buffer mid_def)
  finally show ?thesis .
qed

lemma foldl_on_data_concat:
  "foldl on_data acc (c # cs) = on_data acc (c @ concat cs)"
proof (induction cs arbitrary: acc c)
  case Nil
  show ?case by simp
next
  case (Cons d ds)
  have "foldl on_data acc (c # d # ds) = foldl on_data (on_data acc c) (d # ds)" by simp
  also have "\<dots> = on_data (on_data acc c) (d @ concat ds)" by (rule Cons.IH)
  also have "\<dots> = on_data acc (c @ concat (d # ds))" by (simp add: on_data_append)
  finally show ?case .
qed

lemma receive_concat: "receive chunks = on_data ([], parser_init) (concat chunks)"
proof (cases chunks)
  case Nil
  show ?thesis by (simp add: Nil receive_def on_data_def parser_init_def)
next
  case (Cons c cs)
  show ?thesis by (simp only: Cons receive_def foldl_on_data_concat concat.simps)
qed


lemma split_nl_lines:
  "\<forall>l \<in> set ls. nl \<notin> set l \<Longrightarrow>
     split_nl (concat (map (\<lambda>l. l @ [nl]) ls) @ r) = ls @ split_nl r"
  by (induction ls) (simp_all add: split_nl_line)

lemma frame_lines_no_nl: "wf_frame f \<Longrightarrow> l \<in> set (frame_lines f) \<Longrightarrow> nl \<notin> set l"
  by (cases f rule: wf_frame.cases) (auto simp: nl_def)

lemma render_frames:
  "concat (map render fs) = concat (map (\<lambda>l. l @ [nl]) (concat (map frame_lines fs)))"
  by (induction fs) (simp_all add: render_def)

lemma split_nl_frames:
  assumes "\<forall>f \<in> set fs. wf_frame f" and "nl \<notin> set r"
  shows "split_nl (concat (map render fs) @ r) = concat (map frame_lines fs) @ [r]"
proof -
  have "\<forall>l \<in> set (concat (map frame_lines fs)). nl \<notin> set l"
    using assms(1) frame_lines_no_nl by auto
  then show ?thesis
    by (simp only: render_frames split_nl_lines split_nl_no_nl [OF assms(2)])
qed

lemma on_frame:
  assumes "wf_frame f" "currentEvent p = ''message''" "currentData p = []"
  shows "foldl on_line (out, p) (frame_lines f) = (out @ [expected f], p)"
  using assms
  by (cases f rule: wf_frame.cases) (simp_all add: on_line_def startsWith_def)

lemma on_frames:
  assumes "\<forall>f \<in> set fs. wf_frame f" "currentEvent p = ''message''" "currentData p = []"
  shows "foldl on_line (out, p) (concat (map frame_lines fs)) = (out @ map expected fs, p)"
  using assms
proof (induction fs arbitrary: out)
  case Nil
  show ?case by simp
next
  case (Cons f fs)
  then show ?case by (simp add: on_frame)
qed

text \<open>
  Claim C4. Let the chunks received, concatenated, be \<open>N\<close> well-formed frames
  followed by a partial line (a text with no line feed, possibly empty). Then the parser
  emits exactly \<open>N\<close> events, the event of each frame in order, wherever the chunk
  boundaries fall (it ends in the state it reaches when all arrives as one chunk), and
  the partial line is what the buffer holds afterwards.
\<close>

theorem frames_parsed:
  assumes "\<forall>f \<in> set fs. wf_frame f" and "nl \<notin> set r"
    and "concat chunks = concat (map render fs) @ r"
  shows "fst (receive chunks) = map expected fs \<and> length (fst (receive chunks)) = length fs
     \<and> buffer (snd (receive chunks)) = r
     \<and> receive chunks = receive [concat chunks]"
proof -
  have one: "receive chunks = receive [concat chunks]"
    by (simp add: receive_concat [of chunks] receive_concat [of "[concat chunks]"])
  have "receive chunks = on_data ([], parser_init) (concat (map render fs) @ r)"
    by (simp add: receive_concat assms(3))
  also have "\<dots> = foldl on_line ([], parser_init\<lparr>buffer := r\<rparr>) (concat (map frame_lines fs))"
    using assms(1,2) by (simp add: on_data_pair parser_init_def split_nl_frames)
  also have "\<dots> = (map expected fs, parser_init\<lparr>buffer := r\<rparr>)"
    using on_frames [OF assms(1), of "parser_init\<lparr>buffer := r\<rparr>" "[]"]
    by (simp add: parser_init_def)
  finally show ?thesis using one by simp
qed

text \<open>
  The theorem at four chunks that split the first line and the second frame.
\<close>

theorem frames_parsed_witness:
  "wf_frame (Frame (Some '' endpoint'') '' /mcp?x=1'') \<and> wf_frame (Frame None '' {}'')
   \<and> fst (receive [''eve'', ''nt: endpoint'' @ [nl] @ ''data: /mcp?x=1'' @ [nl],
                    [nl] @ ''data: {}'', [nl, nl] @ ''dat''])
       = [(''endpoint'', ''/mcp?x=1''), (''message'', ''{}'')]
   \<and> buffer (snd (receive [''eve'', ''nt: endpoint'' @ [nl] @ ''data: /mcp?x=1'' @ [nl],
                    [nl] @ ''data: {}'', [nl, nl] @ ''dat''])) = ''dat''"
proof -
  let ?fs = "[Frame (Some '' endpoint'') '' /mcp?x=1'', Frame None '' {}'']"
  let ?chunks = "[''eve'', ''nt: endpoint'' @ [nl] @ ''data: /mcp?x=1'' @ [nl],
                    [nl] @ ''data: {}'', [nl, nl] @ ''dat'']"
  have w1: "wf_frame (Frame (Some '' endpoint'') '' /mcp?x=1'')"
    by (simp add: trim_def js_ws_def nl_def)
  have w2: "wf_frame (Frame None '' {}'')"
    by (simp add: trim_def js_ws_def nl_def)
  have wf: "\<forall>f \<in> set ?fs. wf_frame f"
    using w1 w2 by simp
  have r: "nl \<notin> set ''dat''" by (simp add: nl_def)
  have c: "concat ?chunks = concat (map render ?fs) @ ''dat''"
    by (simp add: render_def)
  have ex: "map expected ?fs = [(''endpoint'', ''/mcp?x=1''), (''message'', ''{}'')]"
    by (simp add: trim_def js_ws_def)
  have res: "fst (receive ?chunks) = map expected ?fs \<and> buffer (snd (receive ?chunks)) = ''dat''"
    using frames_parsed [OF wf r c] by blast
  have A: "fst (receive ?chunks) = [(''endpoint'', ''/mcp?x=1''), (''message'', ''{}'')]"
    by (rule trans [OF conjunct1 [OF res] ex])
  show ?thesis
    using w1 w2 A conjunct2 [OF res] by blast
qed

section \<open>Proofs: settlement of a session attempt\<close>

lemma settle_untouched: "untouched s \<Longrightarrow> is_call x \<Longrightarrow> settled_once (settle s x)"
  by (simp add: untouched_def settled_once_def settle_def)

lemma settle_settled: "settled s \<Longrightarrow> settle s x = s"
  by (simp add: settle_def)

lemma settled_once_phase: "settled_once s \<Longrightarrow> settled_once (s\<lparr>phase := ph\<rparr>)"
  by (simp add: settled_once_def)

lemma untouched_phase: "untouched s \<Longrightarrow> untouched (s\<lparr>phase := ph\<rparr>)"
  by (simp add: untouched_def)

lemma settled_once_settle: "settled_once s \<Longrightarrow> settle s x = s"
  by (simp add: settled_once_def settle_def)

lemma chain_settles_untouched:
  assumes "untouched s"
  shows "untouched (chain_settles s r) \<or> settled_once (chain_settles s r)"
proof (cases "finish r")
  case (Resolves v)
  then show ?thesis
    using settle_untouched [OF untouched_phase [OF assms], of "ResolveOuter v"]
    by (simp add: chain_settles_def)
next
  case (Rejected e)
  then show ?thesis
    using settle_untouched [OF untouched_phase [OF assms], of "RejectOuter e"]
    by (simp add: chain_settles_def)
next
  case (Thrown e)
  then show ?thesis
    using settle_untouched [OF untouched_phase [OF assms], of "RejectOuter e"]
    by (simp add: chain_settles_def)
next
  case Blocked
  then show ?thesis
    using untouched_phase [OF assms] by (simp add: chain_settles_def)
qed

lemma chain_settles_settled_once:
  assumes "settled_once s"
  shows "settled_once (chain_settles s r)"
  using settled_once_phase [OF assms, of "phase_reached r"]
  by (cases "finish r") (simp_all add: chain_settles_def settled_once_settle)

lemma on_event_untouched:
  assumes "untouched s"
  shows "untouched (on_event t a p s ev) \<or> settled_once (on_event t a p s ev)"
proof (cases ev)
  case SessionTimer
  have "timer_set s" using assms by (simp add: untouched_def)
  then show ?thesis
    using settle_untouched [OF assms, of "RejectOuter (Error ''Session timeout'')"]
    by (simp add: SessionTimer on_event_def)
next
  case (EsEndpoint d)
  with assms show ?thesis by (simp add: on_event_def untouched_def)
next
  case (EsError m)
  show ?thesis
  proof (cases "phase s = Connecting")
    case True
    have "es_open s" using assms by (simp add: untouched_def)
    then show ?thesis
      using True settle_untouched [OF assms] by (simp add: EsError on_event_def)
  next
    case False
    with assms show ?thesis by (simp add: EsError on_event_def)
  qed
next
  case (ChainEnds answers)
  then show ?thesis
    using assms chain_settles_untouched [OF assms] by (simp add: on_event_def)
qed

lemma on_event_settled_once:
  assumes "settled_once s"
  shows "settled_once (on_event t a p s ev)"
proof (cases ev)
  case SessionTimer
  with assms show ?thesis by (simp add: on_event_def settled_once_def)
next
  case (EsEndpoint d)
  with assms show ?thesis by (simp add: on_event_def settled_once_def)
next
  case (EsError m)
  with assms show ?thesis by (simp add: on_event_def settled_once_def)
next
  case (ChainEnds answers)
  then show ?thesis
    using assms chain_settles_settled_once [OF assms] by (simp add: on_event_def)
qed

lemma on_event_inv:
  "untouched s \<or> settled_once s \<Longrightarrow>
   untouched (on_event t a p s ev) \<or> settled_once (on_event t a p s ev)"
  using on_event_untouched on_event_settled_once by blast

lemma run_inv:
  "untouched s \<or> settled_once s \<Longrightarrow>
   untouched (foldl (on_event t a p) s evs) \<or> settled_once (foldl (on_event t a p) s evs)"
  by (induction evs arbitrary: s) (simp_all add: on_event_inv)

lemma run_settled_once:
  "settled_once s \<Longrightarrow> settled_once (foldl (on_event t a p) s evs)"
  by (induction evs arbitrary: s) (simp_all add: on_event_settled_once)

lemma timer_settles:
  assumes "untouched s \<or> settled_once s"
  shows "settled_once (on_event t a p s SessionTimer)"
  using assms
proof
  assume u: "untouched s"
  then have "timer_set s" by (simp add: untouched_def)
  then show ?thesis
    using settle_untouched [OF u, of "RejectOuter (Error ''Session timeout'')"]
    by (simp add: on_event_def)
next
  assume "settled_once s"
  then show ?thesis by (rule on_event_settled_once)
qed

lemma timer_in_run:
  "SessionTimer \<in> set evs \<Longrightarrow> untouched s \<or> settled_once s \<Longrightarrow>
   settled_once (foldl (on_event t a p) s evs)"
proof (induction evs arbitrary: s)
  case Nil
  then show ?case by simp
next
  case (Cons ev evs)
  show ?case
  proof (cases "ev = SessionTimer")
    case True
    then show ?thesis
      using timer_settles [OF Cons.prems(2)] by (simp add: run_settled_once)
  next
    case False
    with Cons.prems have "SessionTimer \<in> set evs" by simp
    then show ?thesis
      using Cons.IH on_event_inv [OF Cons.prems(2)] by simp
  qed
qed

lemma promise_of_settled: "is_call x \<Longrightarrow> promise_of [CloseStream, ClearTimer, x] \<noteq> None"
  by (cases x) simp_all

text \<open>
  Claim C1. Whatever happens to a session attempt and in whatever order (the 60000 ms
  timer, stream errors, endpoint events, the end of the initialize and call chain, with
  any answers): once the attempt has settled, and it has as soon as the timer has
  fired, its effects are exactly one close of the stream, then one clear of the timer,
  then the one call that resolves or rejects the caller's promise; before that it has
  no effect at all.
\<close>

theorem settle_exactly_once:
  "(SessionTimer \<in> set evs \<or> settled (run_session toolName toolArgs parse evs) \<longrightarrow>
      (\<exists>x. is_call x \<and>
           effects (run_session toolName toolArgs parse evs) = [CloseStream, ClearTimer, x] \<and>
           mcpSessionCall toolName toolArgs parse evs = promise_of [x]))
   \<and> (\<not> settled (run_session toolName toolArgs parse evs) \<longrightarrow>
      effects (run_session toolName toolArgs parse evs) = [])"
proof -
  have init: "untouched session_init \<or> settled_once session_init"
    by (simp add: untouched_def session_init_def)
  have inv: "untouched (run_session toolName toolArgs parse evs)
             \<or> settled_once (run_session toolName toolArgs parse evs)"
    unfolding run_session_def by (rule run_inv [OF init])
  have timer: "SessionTimer \<in> set evs \<Longrightarrow> settled_once (run_session toolName toolArgs parse evs)"
    unfolding run_session_def using init by (simp add: timer_in_run)
  show ?thesis
    using inv timer
    by (auto simp: untouched_def settled_once_def mcpSessionCall_def)
qed

text \<open>
  The theorem at a run in which the timer fires while the chain is still polling; the
  later end of the chain and a second firing change nothing.
\<close>

theorem settle_exactly_once_witness:
  "SessionTimer \<in> set [EsEndpoint ''/message?sessionId=1'', SessionTimer, ChainEnds [(0, Rejects not_ready)], SessionTimer]
   \<and> effects (run_session ''get_ads'' JNull (\<lambda>s. None)
        [EsEndpoint ''/message?sessionId=1'', SessionTimer, ChainEnds [(0, Rejects not_ready)], SessionTimer])
     = [CloseStream, ClearTimer, RejectOuter (Error ''Session timeout'')]
   \<and> mcpSessionCall ''get_ads'' JNull (\<lambda>s. None)
        [EsEndpoint ''/message?sessionId=1'', SessionTimer, ChainEnds [(0, Rejects not_ready)], SessionTimer]
     = Some (Inl (Error ''Session timeout''))"
  using settle_exactly_once [of "[EsEndpoint ''/message?sessionId=1'', SessionTimer, ChainEnds [(0, Rejects not_ready)], SessionTimer]"
      "''get_ads''" JNull "\<lambda>s. None"]
  by (simp add: mcpSessionCall_def run_session_def on_event_def settle_def session_init_def
      chain_settles_def doInitialize_def init_try_def isTransport_def not_ready_def startsWith_def
      deadline_error_def)

section \<open>Proofs: the polling loop of the initialize phase\<close>

lemma next_delay_bounds: "500 \<le> d \<Longrightarrow> d \<le> 3000 \<Longrightarrow> 500 \<le> next_delay d \<and> next_delay d \<le> 3000"
  by (simp add: next_delay_def min_def)

lemma next_delay_backoff: "next_delay (backoff_delay k) = backoff_delay (Suc k)"
  by (simp add: next_delay_def backoff_delay_def min_def)

lemma delays_from_backoff: "delays_from (backoff_delay k) n = map backoff_delay [k..<k + n]"
proof (induction n arbitrary: k)
  case 0
  show ?case by simp
next
  case (Suc n)
  have "[k..<k + Suc n] = k # [Suc k..<Suc k + n]"
    by (simp add: upt_rec)
  then show ?case
    using Suc.IH [of "Suc k"] by (simp add: next_delay_backoff)
qed

lemma backoffs_append: "backoffs (xs @ ys) = backoffs xs @ backoffs ys"
  by (induction xs rule: backoffs.induct) simp_all

lemma backoff_starts_append: "backoff_starts (xs @ ys) = backoff_starts xs @ backoff_starts ys"
  by (induction xs rule: backoff_starts.induct) simp_all

lemma init_loop_caught:
  assumes "now < 20000" "init_try out = Some e" "isTransport e"
  shows "init_loop t a p ((lat, out) # rest) now delay le ph acts =
         init_loop t a p rest (now + delay + lat) (next_delay delay) (Some e) ph
           (acts @ [(now, Backoff delay), (now + delay, PostRpc_sent 1 ''initialize'' init_params)])"
  using assms by (simp add: Let_def)

lemma init_loop_deadline:
  assumes "\<not> now < 20000"
  shows "init_loop t a p answers now delay le ph acts =
         \<lparr>finish = Thrown (deadline_error le), elapsed = now, actions = acts, phase_reached = ph\<rparr>"
  using assms by (cases answers) auto

lemma init_loop_not_ready:
  assumes "all_not_ready answers" "500 \<le> delay" "delay \<le> 3000"
    and "20000 \<le> now + 500 * of_nat (length answers)"
  shows "\<exists>n starts. n \<le> length answers
     \<and> finish (init_loop t a p answers now delay le ph acts)
         = Thrown (deadline_error (last_err le (take n answers)))
     \<and> backoffs (actions (init_loop t a p answers now delay le ph acts))
         = backoffs acts @ delays_from delay n
     \<and> backoff_starts (actions (init_loop t a p answers now delay le ph acts))
         = backoff_starts acts @ starts
     \<and> list_all (\<lambda>s. s < 20000) starts
     \<and> 20000 \<le> elapsed (init_loop t a p answers now delay le ph acts)
     \<and> (n = 0 \<longrightarrow> elapsed (init_loop t a p answers now delay le ph acts) = now)
     \<and> (0 < n \<longrightarrow> elapsed (init_loop t a p answers now delay le ph acts)
                     < 23000 + fst (answers ! (n - 1)))"
  using assms
proof (induction answers arbitrary: now delay le acts)
  case Nil
  then have d: "\<not> now < 20000" by simp
  show ?case
    by (rule exI [of _ 0], rule exI [of _ "[]"]) (use d in \<open>simp add: init_loop_deadline last_err_def\<close>)
next
  case (Cons x rest)
  obtain lat out where x: "x = (lat, out)" by (cases x)
  show ?case
  proof (cases "now < 20000")
    case False
    then have d: "20000 \<le> now" by simp
    show ?thesis
      by (rule exI [of _ 0], rule exI [of _ "[]"])
         (use False d in \<open>simp add: init_loop_deadline last_err_def\<close>)
  next
    case True
    from Cons.prems(1) obtain e where e: "init_try out = Some e" "isTransport e" and lat: "0 \<le> lat"
      and rest: "all_not_ready rest"
      by (auto simp: all_not_ready_def x split: option.splits)
    define acts1 where "acts1 = acts @ [(now, Backoff delay),
                                      (now + delay, PostRpc_sent 1 ''initialize'' init_params)]"
    define now1 where "now1 = now + delay + lat"
    define R where "R = init_loop t a p rest now1 (next_delay delay) (Some e) ph acts1"
    have step: "init_loop t a p (x # rest) now delay le ph acts = R"
      unfolding x R_def now1_def acts1_def by (rule init_loop_caught [OF True e])
    have nd: "500 \<le> next_delay delay" "next_delay delay \<le> 3000"
      using next_delay_bounds [OF Cons.prems(2,3)] by simp_all
    have enough: "20000 \<le> now1 + 500 * of_nat (length rest)"
      using Cons.prems(2,4) lat by (simp add: now1_def algebra_simps)
    from Cons.IH [OF rest nd enough, of "Some e" acts1]
    obtain n starts where n: "n \<le> length rest"
      and fin: "finish R = Thrown (deadline_error (last_err (Some e) (take n rest)))"
      and bo: "backoffs (actions R) = backoffs acts1 @ delays_from (next_delay delay) n"
      and st: "backoff_starts (actions R) = backoff_starts acts1 @ starts"
      and lt: "list_all (\<lambda>s. s < 20000) starts"
      and el: "20000 \<le> elapsed R"
      and el0: "n = 0 \<longrightarrow> elapsed R = now1"
      and eln: "0 < n \<longrightarrow> elapsed R < 23000 + fst (rest ! (n - 1))"
      unfolding R_def by blast
    have le': "last_err (Some e) (take n rest) = last_err le (take (Suc n) (x # rest))"
      using e by (cases n) (simp_all add: last_err_def x)
    have bound: "elapsed R < 23000 + fst ((x # rest) ! n)"
    proof (cases n)
      case 0
      with el0 have "elapsed R = now1" by simp
      then show ?thesis using True Cons.prems(3) by (simp add: 0 now1_def x)
    next
      case (Suc m)
      with eln show ?thesis by simp
    qed
    show ?thesis
      apply (rule exI [of _ "Suc n"], rule exI [of _ "now # starts"])
      unfolding step
      using n fin bo st lt el True bound le'
      by (simp add: acts1_def backoffs_append backoff_starts_append)
  qed
qed

lemma not_transport_never: "\<not> isTransport (Error ''Transport never became ready'')"
  by (simp add: isTransport_def startsWith_def)

lemma backoff_schedule:
  "backoff_delay 0 = 500 \<and> (\<forall>k. backoff_delay (Suc k) = min (backoff_delay k * (3 / 2)) 3000)
   \<and> (\<forall>k. backoff_delay k \<le> backoff_delay (Suc k)) \<and> (\<forall>k. backoff_delay k \<le> 3000)"
proof -
  have a: "backoff_delay 0 = 500" by (simp add: backoff_delay_def)
  have b: "backoff_delay (Suc k) = min (backoff_delay k * (3 / 2)) 3000" for k
    using next_delay_backoff [of k] by (simp add: next_delay_def)
  have pos: "0 \<le> backoff_delay k" for k by (simp add: backoff_delay_def)
  have c: "backoff_delay k \<le> 3000" for k by (simp add: backoff_delay_def)
  have d: "backoff_delay k \<le> backoff_delay (Suc k)" for k
    using pos [of k] c [of k] by (simp add: b min_def)
  show ?thesis using a b c d by blast
qed

lemma doInitialize_not_ready:
  assumes "all_not_ready answers" and "40 \<le> length answers"
  shows "\<exists>n e. 0 < n \<and> n \<le> length answers
      \<and> init_try (snd (answers ! (n - 1))) = Some e \<and> isTransport e
      \<and> finish (doInitialize toolName toolArgs parse answers) = Thrown e
      \<and> backoffs (actions (doInitialize toolName toolArgs parse answers)) = map backoff_delay [0..<n]
      \<and> list_all (\<lambda>s. s < 20000) (backoff_starts (actions (doInitialize toolName toolArgs parse answers)))
      \<and> 20000 \<le> elapsed (doInitialize toolName toolArgs parse answers)
      \<and> elapsed (doInitialize toolName toolArgs parse answers) < 23000 + fst (answers ! (n - 1))"
proof -
  define R where "R = doInitialize toolName toolArgs parse answers"
  have enough: "(20000::rat) \<le> 0 + 500 * of_nat (length answers)"
  proof -
    have "(40::rat) \<le> of_nat (length answers)" using assms(2) by (metis of_nat_numeral of_nat_le_iff)
    then show ?thesis by simp
  qed
  from init_loop_not_ready [OF assms(1) _ _ enough, of 500 toolName toolArgs parse None Initializing "[]"]
  obtain n starts where n: "n \<le> length answers"
      and fin: "finish R = Thrown (deadline_error (last_err None (take n answers)))"
      and bo: "backoffs (actions R) = delays_from 500 n"
      and st: "backoff_starts (actions R) = starts"
      and lt: "list_all (\<lambda>s. s < 20000) starts"
      and el: "20000 \<le> elapsed R"
      and el0: "n = 0 \<longrightarrow> elapsed R = 0"
      and eln: "0 < n \<longrightarrow> elapsed R < 23000 + fst (answers ! (n - 1))"
    unfolding R_def doInitialize_def by auto
  have pos: "0 < n" using el el0 by (cases n) auto
  have ne: "take n answers \<noteq> []" using pos n by auto
  have lastn: "last (take n answers) = answers ! (n - 1)"
    using pos n last_conv_nth [OF ne] by (simp add: min_def)
  have mem: "answers ! (n - 1) \<in> set answers" using pos n by simp
  obtain e where e: "init_try (snd (answers ! (n - 1))) = Some e" "isTransport e"
    using assms(1) mem by (auto simp: all_not_ready_def list_all_iff split: option.splits)
  have fin': "finish R = Thrown e"
    using fin e ne by (simp add: last_err_def lastn deadline_error_def)
  have bo': "backoffs (actions R) = map backoff_delay [0..<n]"
    using delays_from_backoff [of 0 n] bo by (simp add: backoff_delay_def)
  have "\<exists>n e. 0 < n \<and> n \<le> length answers
      \<and> init_try (snd (answers ! (n - 1))) = Some e \<and> isTransport e
      \<and> finish R = Thrown e
      \<and> backoffs (actions R) = map backoff_delay [0..<n]
      \<and> list_all (\<lambda>s. s < 20000) (backoff_starts (actions R))
      \<and> 20000 \<le> elapsed R
      \<and> elapsed R < 23000 + fst (answers ! (n - 1))"
    using pos n e fin' bo' st lt el eln by blast
  then show ?thesis
    unfolding R_def .
qed

text \<open>
  Claim C3, as amended. Let every initialize request of the polling loop fail as
  transport-not-ready, each answer taking no negative time, and let the environment
  answer every poll (forty answers are enough). Then the loop makes some \<open>n > 0\<close>
  polls and throws the error of the last one, unchanged; the delays it waited are
  \<open>backoff_delay 0, \<dots>, backoff_delay (n - 1)\<close>, which start at 500 ms, are each the
  one before times 1.5 capped at 3000 ms, and never decrease; every wait begins less
  than 20000 ms after the start, and the error is thrown at the first check at or after
  20000 ms, less than 3000 ms plus the time of the last answer later.
\<close>

theorem initialize_deadline:
  assumes "all_not_ready answers" and "40 \<le> length answers"
  shows "(\<exists>n e. 0 < n \<and> n \<le> length answers
      \<and> init_try (snd (answers ! (n - 1))) = Some e \<and> isTransport e
      \<and> finish (doInitialize toolName toolArgs parse answers) = Thrown e
      \<and> backoffs (actions (doInitialize toolName toolArgs parse answers)) = map backoff_delay [0..<n]
      \<and> list_all (\<lambda>s. s < 20000) (backoff_starts (actions (doInitialize toolName toolArgs parse answers)))
      \<and> 20000 \<le> elapsed (doInitialize toolName toolArgs parse answers)
      \<and> elapsed (doInitialize toolName toolArgs parse answers) < 23000 + fst (answers ! (n - 1)))
   \<and> backoff_delay 0 = 500
   \<and> (\<forall>k. backoff_delay (Suc k) = min (backoff_delay k * (3 / 2)) 3000)
   \<and> (\<forall>k. backoff_delay k \<le> backoff_delay (Suc k))
   \<and> (\<forall>k. backoff_delay k \<le> 3000)"
  using doInitialize_not_ready [OF assms] backoff_schedule by blast

lemma not_ready_transport: "init_try (Rejects not_ready) = Some not_ready \<and> isTransport not_ready"
  by (simp add: init_try_def isTransport_def not_ready_def startsWith_def)

lemma init_loop_not_ready_step:
  "now < 20000 \<Longrightarrow>
   init_loop t a p ((lat, Rejects not_ready) # rest) now delay le ph acts =
   init_loop t a p rest (now + delay + lat) (next_delay delay) (Some not_ready) ph
     (acts @ [(now, Backoff delay), (now + delay, PostRpc_sent 1 ''initialize'' init_params)])"
  using not_ready_transport by (simp add: init_loop_caught)

text \<open>
  Claim C3 as stated fails: with ten polls answered at once by \<^verbatim>\<open>POST 400\<close>, the
  loop throws 21593.75 ms after its start, past the 20000 ms, and what it throws is the
  last \<^verbatim>\<open>POST 400\<close> error itself, whose message does not say that the transport
  never became ready.
\<close>

theorem initialize_deadline_counterexample:
  "finish (doInitialize ''get_ads'' JNull (\<lambda>s. None) (replicate 10 (0, Rejects not_ready)))
     = Thrown not_ready
   \<and> elapsed (doInitialize ''get_ads'' JNull (\<lambda>s. None) (replicate 10 (0, Rejects not_ready)))
     = 86375 / 4
   \<and> \<not> elapsed (doInitialize ''get_ads'' JNull (\<lambda>s. None) (replicate 10 (0, Rejects not_ready)))
       \<le> 20000
   \<and> \<not> includes_str (message not_ready) ''never became ready''"
proof -
  have run: "doInitialize ''get_ads'' JNull (\<lambda>s. None) (replicate 10 (0, Rejects not_ready))
      = \<lparr>finish = Thrown not_ready, elapsed = 86375 / 4,
         actions = actions (doInitialize ''get_ads'' JNull (\<lambda>s. None) (replicate 10 (0, Rejects not_ready))),
         phase_reached = Initializing\<rparr>"
    by (simp add: doInitialize_def eval_nat_numeral next_delay_def init_loop_deadline
        deadline_error_def init_loop_not_ready_step del: init_loop.simps)
  have msg: "\<not> includes_str (message not_ready) ''never became ready''"
    by (simp add: not_ready_def startsWith_def)
  have f: "finish (doInitialize ''get_ads'' JNull (\<lambda>s. None) (replicate 10 (0, Rejects not_ready)))
     = Thrown not_ready"
    by (subst run) simp
  have e: "elapsed (doInitialize ''get_ads'' JNull (\<lambda>s. None) (replicate 10 (0, Rejects not_ready)))
     = 86375 / 4"
    by (subst run) simp
  show ?thesis using f e msg by simp
qed

text \<open>The theorem at forty answers \<^verbatim>\<open>POST 400\<close> that take no time.\<close>

theorem initialize_deadline_witness:
  "all_not_ready (replicate 40 (0, Rejects not_ready)) \<and> 40 \<le> length (replicate 40 (0 :: rat, Rejects not_ready))
   \<and> (\<exists>n e. 0 < n \<and> n \<le> 40
      \<and> isTransport e
      \<and> finish (doInitialize ''get_ads'' JNull (\<lambda>s. None) (replicate 40 (0, Rejects not_ready))) = Thrown e
      \<and> backoffs (actions (doInitialize ''get_ads'' JNull (\<lambda>s. None) (replicate 40 (0, Rejects not_ready))))
          = map backoff_delay [0..<n]
      \<and> 20000 \<le> elapsed (doInitialize ''get_ads'' JNull (\<lambda>s. None) (replicate 40 (0, Rejects not_ready)))
      \<and> elapsed (doInitialize ''get_ads'' JNull (\<lambda>s. None) (replicate 40 (0, Rejects not_ready))) < 23000)"
proof -
  have h1: "all_not_ready (replicate 40 (0, Rejects not_ready))"
    using not_ready_transport by (simp add: all_not_ready_def list_all_iff)
  have h2: "40 \<le> length (replicate 40 (0 :: rat, Rejects not_ready))" by simp
  from initialize_deadline [OF h1 h2, of "''get_ads''" JNull "\<lambda>s. None"]
  obtain n e where "0 < n" "n \<le> 40" "isTransport e"
     "finish (doInitialize ''get_ads'' JNull (\<lambda>s. None) (replicate 40 (0, Rejects not_ready))) = Thrown e"
     "backoffs (actions (doInitialize ''get_ads'' JNull (\<lambda>s. None) (replicate 40 (0, Rejects not_ready))))
          = map backoff_delay [0..<n]"
     "20000 \<le> elapsed (doInitialize ''get_ads'' JNull (\<lambda>s. None) (replicate 40 (0, Rejects not_ready)))"
     "elapsed (doInitialize ''get_ads'' JNull (\<lambda>s. None) (replicate 40 (0, Rejects not_ready))) < 23000"
    by auto
  then show ?thesis using h1 h2 by blast
qed

section \<open>Proofs: the Session Retry Wrapper\<close>

lemma isTransport_isTransient: "isTransport e \<Longrightarrow> isTransient e"
  by (auto simp: isTransport_def isTransient_def)

lemma retry_loop_retry:
  assumes "int a < m" "sess a = Some (Inl e)" "isTransient e" "int a + 1 < m"
  shows "retry_loop sess m a =
         (retry_loop sess m (Suc a))\<lparr>waits := 3000 * (int a + 1) # waits (retry_loop sess m (Suc a)),
                                    attempts := attempts (retry_loop sess m (Suc a)) + 1\<rparr>"
  using assms by (subst retry_loop.simps) (simp add: Let_def)

lemma retry_loop_stop:
  assumes "int a < m" "sess a = Some res"
    and "(\<exists>v. res = Inr v) \<or> (\<exists>e. res = Inl e \<and> \<not> isTransient e) \<or> int a = m - 1"
  shows "retry_loop sess m a = \<lparr>outcome = Some res, waits = [], attempts = 1\<rparr>"
proof (cases res)
  case (Inl e)
  show ?thesis
  proof (cases "isTransient e")
    case True
    with assms(3) Inl have "\<not> int a < m - 1" by auto
    with assms(1,2) Inl show ?thesis by (subst retry_loop.simps) simp
  next
    case False
    with assms(1,2) Inl show ?thesis by (subst retry_loop.simps) simp
  qed
next
  case (Inr v)
  with assms(1,2) show ?thesis by (subst retry_loop.simps) simp
qed

lemma retry_loop_none:
  "int a < m \<Longrightarrow> sess a = None \<Longrightarrow> retry_loop sess m a = \<lparr>outcome = None, waits = [], attempts = 1\<rparr>"
  by (subst retry_loop.simps) simp

lemma retry_loop_attempts_pos: "int a < m \<Longrightarrow> 1 \<le> attempts (retry_loop sess m a)"
  by (subst retry_loop.simps) (simp add: Let_def split: option.splits sum.splits)

text \<open>The attempts \<open>a, \<dots>, a + d - 1\<close> all fail transiently with attempts remaining.\<close>

lemma retry_loop_skip:
  assumes "\<forall>i. a \<le> i \<and> i < a + d \<longrightarrow> (\<exists>e. sess i = Some (Inl e) \<and> isTransient e)"
    and "int (a + d) < m"
  shows "retry_loop sess m a =
         (retry_loop sess m (a + d))
           \<lparr>waits := map (\<lambda>i. 3000 * (int i + 1)) [a..<a + d] @ waits (retry_loop sess m (a + d)),
             attempts := attempts (retry_loop sess m (a + d)) + d\<rparr>"
  using assms
proof (induction d arbitrary: a)
  case 0
  show ?case by simp
next
  case (Suc d)
  from Suc.prems(1) obtain e where e: "sess a = Some (Inl e)" "isTransient e" by auto
  have lt: "int a < m" "int a + 1 < m" using Suc.prems(2) by simp_all
  have rest: "\<forall>i. Suc a \<le> i \<and> i < Suc a + d \<longrightarrow> (\<exists>e. sess i = Some (Inl e) \<and> isTransient e)"
    using Suc.prems(1) by simp
  have m: "int (Suc a + d) < m" using Suc.prems(2) by simp
  have up: "[a..<a + Suc d] = a # [Suc a..<Suc a + d]" by (simp add: upt_rec)
  have step: "retry_loop sess m a =
         (retry_loop sess m (Suc a))\<lparr>waits := 3000 * (int a + 1) # waits (retry_loop sess m (Suc a)),
                                    attempts := attempts (retry_loop sess m (Suc a)) + 1\<rparr>"
    using lt(1) e lt(2) by (rule retry_loop_retry)
  have ih: "retry_loop sess m (Suc a) =
         (retry_loop sess m (Suc a + d))
           \<lparr>waits := map (\<lambda>i. 3000 * (int i + 1)) [Suc a..<Suc a + d] @ waits (retry_loop sess m (Suc a + d)),
             attempts := attempts (retry_loop sess m (Suc a + d)) + d\<rparr>"
    using rest m by (rule Suc.IH)
  show ?case
    by (subst step, subst (1 2 3) ih, subst up) simp
qed

lemma mcpToolCall_skip:
  assumes "\<forall>i<k. \<exists>e. mcpSessionCall t a p (env i) = Some (Inl e) \<and> isTransient e"
    and "int k < m"
  shows "mcpToolCall t a m p env =
         (retry_loop (\<lambda>i. mcpSessionCall t a p (env i)) m k)
           \<lparr>waits := retry_delays k @ waits (retry_loop (\<lambda>i. mcpSessionCall t a p (env i)) m k),
             attempts := attempts (retry_loop (\<lambda>i. mcpSessionCall t a p (env i)) m k) + k\<rparr>"
  unfolding mcpToolCall_def retry_delays_def
  using retry_loop_skip [of 0 k "\<lambda>i. mcpSessionCall t a p (env i)" m] assms by simp

lemma mcpToolCall_ends:
  assumes "\<forall>i<k. \<exists>e. mcpSessionCall t a p (env i) = Some (Inl e) \<and> isTransient e"
    and "int k < m"
    and "mcpSessionCall t a p (env k) = Some res"
    and "(\<exists>v. res = Inr v) \<or> (\<exists>e. res = Inl e \<and> \<not> isTransient e) \<or> int k = m - 1"
  shows "mcpToolCall t a m p env = \<lparr>outcome = Some res, waits = retry_delays k, attempts = k + 1\<rparr>"
proof -
  have "retry_loop (\<lambda>i. mcpSessionCall t a p (env i)) m k
        = \<lparr>outcome = Some res, waits = [], attempts = 1\<rparr>"
    using assms(2) _ assms(4) by (rule retry_loop_stop) (simp add: assms(3))
  then show ?thesis
    by (simp add: mcpToolCall_skip [OF assms(1,2)])
qed

lemma session_rejects:
  assumes "finish (doInitialize t a p answers) = Thrown e \<or> finish (doInitialize t a p answers) = Rejected e"
  shows "mcpSessionCall t a p [EsEndpoint d, ChainEnds answers] = Some (Inl e)"
  using assms
  by (auto simp: mcpSessionCall_def run_session_def on_event_def session_init_def
      chain_settles_def settle_def)

lemma next_delay_nonneg: "0 \<le> d \<Longrightarrow> 0 \<le> next_delay d"
  by (simp add: next_delay_def)

lemma round_time_nonneg: "caught_round p r \<Longrightarrow> 0 \<le> round_time r"
  by (cases "(p, r)" rule: caught_round.cases) simp_all

lemma rounds_end_mono:
  "list_all (caught_round p) rs \<Longrightarrow> 0 \<le> delay \<Longrightarrow> now \<le> rounds_end rs now delay"
proof (induction rs arbitrary: now delay)
  case Nil
  show ?case by simp
next
  case (Cons r rs)
  from Cons.prems(1) have r: "0 \<le> round_time r" and rest: "list_all (caught_round p) rs"
    using round_time_nonneg [of p r] by simp_all
  have "now + delay + round_time r \<le> rounds_end rs (now + delay + round_time r) (next_delay delay)"
    using rest next_delay_nonneg [OF Cons.prems(2)] by (rule Cons.IH)
  then show ?case using r Cons.prems(2) by simp
qed

lemma init_loop_round:
  assumes "caught_round p r" and "now < 20000"
  shows "\<exists>e ph' acts'. isTransport e \<and>
           init_loop t a p (r @ rest) now delay le ph acts
             = init_loop t a p rest (now + delay + round_time r) (next_delay delay) (Some e) ph' acts'"
proof -
  have "(\<exists>lat1 out1. r = [(lat1, out1)])
        \<or> (\<exists>lat1 out1 lat2 out2. r = [(lat1, out1), (lat2, out2)])"
    using assms(1) by (cases "(p, r)" rule: caught_round.cases) auto
  then show ?thesis
  proof (elim disjE exE)
    fix lat1 out1
    assume r: "r = [(lat1, out1)]"
    with assms(1) obtain e where "init_try out1 = Some e" "isTransport e"
      by (auto split: option.splits)
    then show ?thesis using r assms(2) by (auto simp: Let_def)
  next
    fix lat1 out1 lat2 out2
    assume r: "r = [(lat1, out1), (lat2, out2)]"
    with assms(1) obtain e ph' where "init_try out1 = None"
        "call_try p out2 = Call_caught e ph'" "isTransport e"
      by (auto split: call_step.splits)
    then show ?thesis using r assms(2) by (auto simp: Let_def algebra_simps)
  qed
qed

lemma init_loop_rounds:
  assumes "list_all (caught_round p) rs" "0 \<le> delay" "rounds_end rs now delay < 20000"
  shows "\<exists>delay' le' ph' acts'.
           init_loop t a p (concat rs @ rest) now delay le ph acts
             = init_loop t a p rest (rounds_end rs now delay) delay' le' ph' acts'"
  using assms
proof (induction rs arbitrary: now delay le ph acts)
  case Nil
  show ?case by auto
next
  case (Cons r rs)
  from Cons.prems(1) have r: "caught_round p r" and rs: "list_all (caught_round p) rs"
    by simp_all
  have nd: "0 \<le> next_delay delay" using Cons.prems(2) by (rule next_delay_nonneg)
  have pe: "rounds_end rs (now + delay + round_time r) (next_delay delay) < 20000"
    using Cons.prems(3) by simp
  have "now + delay + round_time r \<le> rounds_end rs (now + delay + round_time r) (next_delay delay)"
    using rs nd by (rule rounds_end_mono)
  then have now: "now < 20000"
    using pe round_time_nonneg [OF r] Cons.prems(2) by simp
  obtain e ph' acts' where step:
    "init_loop t a p (r @ concat rs @ rest) now delay le ph acts
       = init_loop t a p (concat rs @ rest) (now + delay + round_time r) (next_delay delay)
           (Some e) ph' acts'"
    using init_loop_round [OF r now, of t a "concat rs @ rest" delay le ph acts] by blast
  show ?case
    using Cons.IH [OF rs nd pe, of "Some e" ph' acts'] step by simp
qed

lemma init_loop_exhausted:
  assumes "list_all (caught_round p) rs" "0 \<le> delay" "20000 \<le> rounds_end rs now delay"
    and "now < 20000 \<or> (\<exists>e. le = Some e \<and> isTransport e)"
  shows "\<exists>e. finish (init_loop t a p (concat rs) now delay le ph acts) = Thrown e \<and> isTransport e"
  using assms
proof (induction rs arbitrary: now delay le ph acts)
  case Nil
  then obtain e where "le = Some e" "isTransport e" by auto
  then show ?case using Nil.prems(3) by (simp add: deadline_error_def)
next
  case (Cons r rs)
  from Cons.prems(1) have r: "caught_round p r" and rs: "list_all (caught_round p) rs"
    by simp_all
  show ?case
  proof (cases "now < 20000")
    case True
    obtain e ph' acts' where e: "isTransport e" and step:
      "init_loop t a p (r @ concat rs) now delay le ph acts
         = init_loop t a p (concat rs) (now + delay + round_time r) (next_delay delay)
             (Some e) ph' acts'"
      using init_loop_round [OF r True, of t a "concat rs" delay le ph acts] by blast
    have "\<exists>e'. finish (init_loop t a p (concat rs) (now + delay + round_time r) (next_delay delay)
             (Some e) ph' acts') = Thrown e' \<and> isTransport e'"
      using rs next_delay_nonneg [OF Cons.prems(2)] Cons.prems(3) e
      by (intro Cons.IH) simp_all
    then show ?thesis using step by simp
  next
    case False
    with Cons.prems(4) obtain e where "le = Some e" "isTransport e" by auto
    then show ?thesis
      using False by (simp add: init_loop_deadline deadline_error_def)
  qed
qed

lemma protocol_error_loop:
  assumes "protocol_error rest = Some err" and "\<not> isTransport (mcp_error err)"
    and "now < 20000"
  shows "finish (init_loop t a p rest now delay le ph acts) = Thrown (mcp_error err)
       \<or> finish (init_loop t a p rest now delay le ph acts) = Rejected (mcp_error err)"
proof -
  from assms(1) obtain lat1 resp rest1 where a: "rest = (lat1, Responds resp) # rest1"
    by (cases rest rule: protocol_error.cases) auto
  show ?thesis
  proof (cases "truthy (js_get resp ''error'')")
    case True
    with assms(1) a have "js_get resp ''error'' = err" by simp
    with True assms(2,3) show ?thesis
      by (simp add: a init_try_def)
  next
    case False
    with assms(1) a obtain lat2 result rest2 where r: "rest1 = (lat2, Responds result) # rest2"
      and t: "truthy (js_get result ''error'')" and e: "js_get result ''error'' = err"
      by (auto split: list.splits rpc_outcome.splits if_splits)
    show ?thesis
      using False t e assms(3) by (simp add: a r init_try_def call_try_def Let_def)
  qed
qed

lemma protocol_error_after_rounds:
  assumes "list_all (caught_round p) rs" and "rounds_end rs 0 500 < 20000"
    and "protocol_error rest = Some err" and "\<not> isTransient (mcp_error err)"
  shows "finish (doInitialize t a p (concat rs @ rest)) = Thrown (mcp_error err)
       \<or> finish (doInitialize t a p (concat rs @ rest)) = Rejected (mcp_error err)"
proof -
  have nt: "\<not> isTransport (mcp_error err)"
    using assms(4) isTransport_isTransient by blast
  obtain delay' le' ph' acts' where
    "init_loop t a p (concat rs @ rest) 0 500 None Initializing []
       = init_loop t a p rest (rounds_end rs 0 500) delay' le' ph' acts'"
    using init_loop_rounds [OF assms(1) _ assms(2), of t a rest None Initializing "[]"] by auto
  then show ?thesis
    using protocol_error_loop [OF assms(3) nt assms(2)] by (simp add: doInitialize_def)
qed

lemma exhausted_throws:
  assumes "list_all (caught_round p) rs" and "20000 \<le> rounds_end rs 0 500"
  shows "\<exists>e. finish (doInitialize t a p (concat rs)) = Thrown e \<and> isTransport e"
  unfolding doInitialize_def using assms by (intro init_loop_exhausted) simp_all

lemma on_event_msgUrl: "msgUrl s \<noteq> None \<Longrightarrow> msgUrl (on_event t a p s ev) \<noteq> None"
  by (cases ev)
    (auto simp: on_event_def chain_settles_def settle_def Let_def split: completion.splits)

lemma run_msgUrl: "msgUrl s \<noteq> None \<Longrightarrow> msgUrl (foldl (on_event t a p) s evs) \<noteq> None"
proof (induction evs arbitrary: s)
  case Nil
  then show ?case by simp
next
  case (Cons ev evs)
  have "msgUrl (on_event t a p s ev) \<noteq> None" using Cons.prems by (rule on_event_msgUrl)
  then have "msgUrl (foldl (on_event t a p) (on_event t a p s ev) evs) \<noteq> None" by (rule Cons.IH)
  then show ?case by simp
qed

lemma endpoint_msgUrl:
  "EsEndpoint d \<in> set evs \<Longrightarrow> untouched s \<or> settled_once s \<Longrightarrow>
   untouched (foldl (on_event t a p) s evs) \<Longrightarrow> msgUrl (foldl (on_event t a p) s evs) \<noteq> None"
proof (induction evs arbitrary: s)
  case Nil
  then show ?case by simp
next
  case (Cons ev evs)
  have inv: "untouched (on_event t a p s ev) \<or> settled_once (on_event t a p s ev)"
    using Cons.prems(2) by (rule on_event_inv)
  show ?case
  proof (cases "ev = EsEndpoint d")
    case True
    have "untouched s"
    proof (rule ccontr)
      assume "\<not> untouched s"
      with Cons.prems(2) have "settled_once s" by simp
      then have "settled_once (foldl (on_event t a p) s (ev # evs))" by (rule run_settled_once)
      with Cons.prems(3) show False by (simp add: untouched_def settled_once_def)
    qed
    then have "msgUrl (on_event t a p s ev) \<noteq> None"
      by (simp add: True on_event_def untouched_def)
    then show ?thesis by (simp add: run_msgUrl)
  next
    case False
    with Cons.prems(1) have "EsEndpoint d \<in> set evs" by simp
    then show ?thesis using Cons.IH [OF _ inv] Cons.prems(3) by simp
  qed
qed

lemma settled_once_effects: "settled_once s \<Longrightarrow> effects (on_event t a p s ev) = effects s"
  by (cases ev)
    (auto simp: on_event_def chain_settles_def settle_def settled_once_def Let_def
      split: completion.splits)

lemma run_settled_effects:
  "settled_once s \<Longrightarrow> effects (foldl (on_event t a p) s evs) = effects s"
proof (induction evs arbitrary: s)
  case Nil
  show ?case by simp
next
  case (Cons ev evs)
  have "settled_once (on_event t a p s ev)" using Cons.prems by (rule on_event_settled_once)
  then show ?case using Cons.IH settled_once_effects [OF Cons.prems] by simp
qed

lemma chain_rejects:
  assumes "mcpSessionCall t a p before = None" and "EsEndpoint d \<in> set before"
    and "finish (doInitialize t a p answers) = Thrown e
         \<or> finish (doInitialize t a p answers) = Rejected e"
  shows "mcpSessionCall t a p (before @ ChainEnds answers # after) = Some (Inl e)"
proof -
  let ?s = "run_session t a p before"
  have init: "untouched session_init \<or> settled_once session_init"
    by (simp add: untouched_def session_init_def)
  have inv: "untouched ?s \<or> settled_once ?s"
    unfolding run_session_def by (rule run_inv [OF init])
  have u: "untouched ?s"
  proof (rule ccontr)
    assume "\<not> untouched ?s"
    with inv have "settled_once ?s" by simp
    then obtain x where "is_call x" "effects ?s = [CloseStream, ClearTimer, x]"
      by (auto simp: settled_once_def)
    then show False using assms(1) promise_of_settled [of x] by (simp add: mcpSessionCall_def)
  qed
  have url: "msgUrl ?s \<noteq> None"
    using endpoint_msgUrl [OF assms(2) init] u by (simp add: run_session_def)
  let ?s' = "on_event t a p ?s (ChainEnds answers)"
  have up: "untouched (?s\<lparr>phase := phase_reached (doInitialize t a p answers)\<rparr>)"
    using u by (rule untouched_phase)
  have s': "?s' = settle (?s\<lparr>phase := phase_reached (doInitialize t a p answers)\<rparr>) (RejectOuter e)"
    using url assms(3) by (auto simp: on_event_def chain_settles_def)
  have so: "settled_once ?s'"
    unfolding s' using up by (rule settle_untouched) simp
  have eff: "effects ?s' = [CloseStream, ClearTimer, RejectOuter e]"
    unfolding s' using up by (simp add: untouched_def settle_def)
  have "run_session t a p (before @ ChainEnds answers # after) = foldl (on_event t a p) ?s' after"
    by (simp add: run_session_def)
  then have "effects (run_session t a p (before @ ChainEnds answers # after)) = effects ?s'"
    using run_settled_effects [OF so] by simp
  then show ?thesis by (simp add: mcpSessionCall_def eff)
qed

lemma rounds_end_singletons:
  "500 \<le> delay \<Longrightarrow> delay \<le> 3000 \<Longrightarrow> list_all (\<lambda>x. 0 \<le> fst x) answers \<Longrightarrow>
   now + 500 * of_nat (length answers) \<le> rounds_end (map (\<lambda>x. [x]) answers) now delay"
proof (induction answers arbitrary: now delay)
  case Nil
  show ?case by simp
next
  case (Cons x answers)
  obtain lat out where x: "x = (lat, out)" by (cases x)
  have nd: "500 \<le> next_delay delay \<and> next_delay delay \<le> 3000"
    using Cons.prems(1,2) by (rule next_delay_bounds)
  have "now + delay + lat + 500 * of_nat (length answers)
          \<le> rounds_end (map (\<lambda>x. [x]) answers) (now + delay + lat) (next_delay delay)"
    using nd Cons.prems(3) by (intro Cons.IH) simp_all
  then show ?case using Cons.prems(1,3) by (simp add: x algebra_simps)
qed

lemma not_ready_rounds:
  assumes "all_not_ready answers"
  shows "list_all (caught_round p) (map (\<lambda>x. [x]) answers)
       \<and> concat (map (\<lambda>x. [x]) answers) = answers
       \<and> 500 * of_nat (length answers) \<le> rounds_end (map (\<lambda>x. [x]) answers) 0 500"
proof (intro conjI)
  show "list_all (caught_round p) (map (\<lambda>x. [x]) answers)"
    using assms by (induction answers) (auto simp: all_not_ready_def)
  show "concat (map (\<lambda>x. [x]) answers) = answers"
    by (induction answers) simp_all
  have "list_all (\<lambda>x. 0 \<le> fst x) answers"
    using assms by (induction answers) (auto simp: all_not_ready_def)
  then show "500 * of_nat (length answers) \<le> rounds_end (map (\<lambda>x. [x]) answers) 0 500"
    using rounds_end_singletons [of 500 answers 0] by simp
qed

text \<open>
  Claim C10. With a maximum of zero attempts or less, \<^verbatim>\<open>mcpToolCall\<close> runs no
  session, waits for nothing and resolves with \<^verbatim>\<open>undefined\<close>, whatever the tool
  name and the arguments.
\<close>

theorem zero_attempts:
  "maxRetries \<le> 0 \<Longrightarrow>
   mcpToolCall toolName toolArgs maxRetries parse env
     = \<lparr>outcome = Some (Inr JUndefined), waits = [], attempts = 0\<rparr>"
  unfolding mcpToolCall_def by (subst retry_loop.simps) simp

text \<open>The theorem at a maximum of zero.\<close>

theorem zero_attempts_witness:
  "(0::int) \<le> 0 \<and>
   mcpToolCall ''get_ads'' (JObj []) 0 (\<lambda>s. None) (\<lambda>i. [SessionTimer])
     = \<lparr>outcome = Some (Inr JUndefined), waits = [], attempts = 0\<rparr>"
  using zero_attempts [of 0 "''get_ads''" "JObj []" "\<lambda>s. None" "\<lambda>i. [SessionTimer]"] by simp

text \<open>
  Claim C6. Let the sessions of the attempts \<open>0, \<dots>, k - 1\<close> fail with transient
  errors, and let attempt \<open>k\<close>, within the maximum, succeed, fail with an error that
  is not transient, or be the last attempt allowed. Then \<^verbatim>\<open>mcpToolCall\<close> runs
  exactly \<open>k + 1\<close> sessions, waits \<open>3000 * (i + 1)\<close> ms after each failed attempt
  \<open>i < k\<close>, and settles to exactly what the session of attempt \<open>k\<close> settled to (its
  value, or its error unchanged). Every attempt is a session run from the initial
  state on its own events. With three attempts the delays are 3000 ms and 6000 ms.
\<close>

theorem retry_wrapper:
  assumes "\<forall>i<k. \<exists>e. mcpSessionCall toolName toolArgs parse (env i) = Some (Inl e) \<and> isTransient e"
    and "int k < maxRetries"
    and "mcpSessionCall toolName toolArgs parse (env k) = Some res"
    and "(\<exists>v. res = Inr v) \<or> (\<exists>e. res = Inl e \<and> \<not> isTransient e) \<or> int k = maxRetries - 1"
  shows "mcpToolCall toolName toolArgs maxRetries parse env
           = \<lparr>outcome = Some res, waits = map (\<lambda>i. 3000 * (int i + 1)) [0..<k], attempts = k + 1\<rparr>
       \<and> (\<forall>i. mcpSessionCall toolName toolArgs parse (env i)
                = promise_of (effects (foldl (on_event toolName toolArgs parse) session_init (env i))))
       \<and> (k = 2 \<longrightarrow> waits (mcpToolCall toolName toolArgs maxRetries parse env) = [3000, 6000])"
proof -
  have run: "mcpToolCall toolName toolArgs maxRetries parse env
           = \<lparr>outcome = Some res, waits = map (\<lambda>i. 3000 * (int i + 1)) [0..<k], attempts = k + 1\<rparr>"
    using mcpToolCall_ends [OF assms] by (simp add: retry_delays_def)
  have two: "map (\<lambda>i. 3000 * (int i + 1)) [0..<2] = [3000, 6000]"
    by (simp add: upt_rec)
  show ?thesis
    using run two by (simp add: mcpSessionCall_def run_session_def)
qed

lemma sse_failed:
  "mcpSessionCall t a p [EsError None] = Some (Inl (Error ''SSE connection failed: unknown''))
   \<and> isTransient (Error ''SSE connection failed: unknown'')"
  by (simp add: mcpSessionCall_def run_session_def on_event_def session_init_def settle_def
      isTransient_def startsWith_def)

text \<open>
  The theorem at three attempts whose stream fails to connect: three sessions, delays
  of 3000 ms and 6000 ms, and the last error handed on.
\<close>

theorem retry_wrapper_witness:
  "mcpSessionCall ''get_ads'' JNull (\<lambda>s. None) [EsError None]
     = Some (Inl (Error ''SSE connection failed: unknown''))
   \<and> isTransient (Error ''SSE connection failed: unknown'')
   \<and> int 2 < 3 \<and> int 2 = 3 - 1
   \<and> mcpToolCall ''get_ads'' JNull 3 (\<lambda>s. None) (\<lambda>i. [EsError None])
       = \<lparr>outcome = Some (Inl (Error ''SSE connection failed: unknown'')),
          waits = [3000, 6000], attempts = 3\<rparr>"
proof -
  have h1: "\<forall>i<2. \<exists>e. mcpSessionCall ''get_ads'' JNull (\<lambda>s. None) ((\<lambda>i. [EsError None]) i) = Some (Inl e)
            \<and> isTransient e"
    using sse_failed by blast
  have h2: "int 2 < 3" by simp
  have h3: "mcpSessionCall ''get_ads'' JNull (\<lambda>s. None) ((\<lambda>i. [EsError None]) 2)
            = Some (Inl (Error ''SSE connection failed: unknown''))"
    using sse_failed by simp
  have h4: "(\<exists>v. Inl (Error ''SSE connection failed: unknown'') = (Inr v :: js_error + jv))
          \<or> (\<exists>e. (Inl (Error ''SSE connection failed: unknown'') :: js_error + jv) = Inl e \<and> \<not> isTransient e)
          \<or> int 2 = 3 - 1"
    by simp
  show ?thesis
    using retry_wrapper [OF h1 h2 h3 h4] sse_failed by (simp add: upt_rec)
qed

lemma mcpToolCall_retries:
  assumes "\<forall>i<k. \<exists>e. mcpSessionCall t a p (env i) = Some (Inl e) \<and> isTransient e"
    and "mcpSessionCall t a p (env k) = Some (Inl e)" and "isTransient e"
    and "int k + 1 < m"
  shows "k + 2 \<le> attempts (mcpToolCall t a m p env)
       \<and> take (k + 1) (waits (mcpToolCall t a m p env)) = retry_delays (k + 1)"
proof -
  have all: "\<forall>i<Suc k. \<exists>e. mcpSessionCall t a p (env i) = Some (Inl e) \<and> isTransient e"
    using assms(1,2,3) less_Suc_eq by auto
  have m: "int (Suc k) < m" using assms(4) by simp
  have len: "length (retry_delays (Suc k)) = Suc k" by (simp add: retry_delays_def)
  show ?thesis
    using retry_loop_attempts_pos [OF m, of "\<lambda>i. mcpSessionCall t a p (env i)"] len
    by (simp add: mcpToolCall_skip [OF all m])
qed

text \<open>
  Claim C2, as amended. Let the attempts before attempt \<open>k\<close> have failed with
  transient errors, and let attempt \<open>k\<close> be within the maximum. If attempt \<open>k\<close>
  fails with the error \<^verbatim>\<open>MCP error <code>: <message>\<close> built from the \<^verbatim>\<open>error\<close>
  member of a response and this message holds none of the four transient patterns,
  \<^verbatim>\<open>mcpToolCall\<close> ends with that error after attempt \<open>k\<close>, having waited only
  between the earlier attempts: no retry. An attempt does fail so whenever, an
  endpoint event having come and nothing having settled the attempt before the chain
  ends, the polling loop meets the response carrying the \<^verbatim>\<open>error\<close> member, to the
  initialize request or to the tool call, before the deadline, after any number of
  passes that failed as transport-not-ready; whatever comes later changes nothing. If
  such passes last until the deadline, the session fails with an error classified
  transient, and a further session is run after \<open>3000 * (k + 1)\<close> ms when an attempt
  remains; none is when attempt \<open>k\<close> was the last.
\<close>

theorem retry_classification:
  assumes "\<forall>i<k. \<exists>e. mcpSessionCall toolName toolArgs parse (env i) = Some (Inl e) \<and> isTransient e"
    and "int k < maxRetries"
  shows "(mcpSessionCall toolName toolArgs parse (env k) = Some (Inl (mcp_error err))
            \<and> \<not> isTransient (mcp_error err) \<longrightarrow>
            mcpToolCall toolName toolArgs maxRetries parse env
              = \<lparr>outcome = Some (Inl (mcp_error err)),
                 waits = map (\<lambda>i. 3000 * (int i + 1)) [0..<k], attempts = k + 1\<rparr>)
       \<and> (env k = before @ ChainEnds (concat rounds @ rest) # after
            \<and> mcpSessionCall toolName toolArgs parse before = None \<and> EsEndpoint d \<in> set before
            \<and> list_all (caught_round parse) rounds \<and> rounds_end rounds 0 500 < 20000
            \<and> protocol_error rest = Some err \<and> \<not> isTransient (mcp_error err) \<longrightarrow>
            mcpSessionCall toolName toolArgs parse (env k) = Some (Inl (mcp_error err))
            \<and> mcpToolCall toolName toolArgs maxRetries parse env
              = \<lparr>outcome = Some (Inl (mcp_error err)),
                 waits = map (\<lambda>i. 3000 * (int i + 1)) [0..<k], attempts = k + 1\<rparr>)
       \<and> (env k = before @ ChainEnds (concat rounds) # after
            \<and> mcpSessionCall toolName toolArgs parse before = None \<and> EsEndpoint d \<in> set before
            \<and> list_all (caught_round parse) rounds \<and> 20000 \<le> rounds_end rounds 0 500 \<longrightarrow>
            (\<exists>e. finish (doInitialize toolName toolArgs parse (concat rounds)) = Thrown e
                \<and> mcpSessionCall toolName toolArgs parse (env k) = Some (Inl e)
                \<and> isTransient e)
            \<and> (int k + 1 < maxRetries \<longrightarrow>
                 k + 2 \<le> attempts (mcpToolCall toolName toolArgs maxRetries parse env)
                 \<and> take (k + 1) (waits (mcpToolCall toolName toolArgs maxRetries parse env))
                     = map (\<lambda>i. 3000 * (int i + 1)) [0..<k + 1])
            \<and> (int k + 1 = maxRetries \<longrightarrow>
                 attempts (mcpToolCall toolName toolArgs maxRetries parse env) = k + 1))"
proof (intro conjI impI)
  assume p: "mcpSessionCall toolName toolArgs parse (env k) = Some (Inl (mcp_error err))
            \<and> \<not> isTransient (mcp_error err)"
  then have s: "mcpSessionCall toolName toolArgs parse (env k) = Some (Inl (mcp_error err))" by simp
  show "mcpToolCall toolName toolArgs maxRetries parse env
              = \<lparr>outcome = Some (Inl (mcp_error err)),
                 waits = map (\<lambda>i. 3000 * (int i + 1)) [0..<k], attempts = k + 1\<rparr>"
    using mcpToolCall_ends [OF assms(1,2) s] p by (simp add: retry_delays_def)
next
  assume q: "env k = before @ ChainEnds (concat rounds @ rest) # after
            \<and> mcpSessionCall toolName toolArgs parse before = None \<and> EsEndpoint d \<in> set before
            \<and> list_all (caught_round parse) rounds \<and> rounds_end rounds 0 500 < 20000
            \<and> protocol_error rest = Some err \<and> \<not> isTransient (mcp_error err)"
  then have "finish (doInitialize toolName toolArgs parse (concat rounds @ rest)) = Thrown (mcp_error err)
       \<or> finish (doInitialize toolName toolArgs parse (concat rounds @ rest)) = Rejected (mcp_error err)"
    using protocol_error_after_rounds by blast
  then show s: "mcpSessionCall toolName toolArgs parse (env k) = Some (Inl (mcp_error err))"
    using q chain_rejects [of toolName toolArgs parse before d "concat rounds @ rest"] by simp
  show "mcpToolCall toolName toolArgs maxRetries parse env
              = \<lparr>outcome = Some (Inl (mcp_error err)),
                 waits = map (\<lambda>i. 3000 * (int i + 1)) [0..<k], attempts = k + 1\<rparr>"
    using mcpToolCall_ends [OF assms(1,2) s] q by (simp add: retry_delays_def)
next
  assume n: "env k = before @ ChainEnds (concat rounds) # after
            \<and> mcpSessionCall toolName toolArgs parse before = None \<and> EsEndpoint d \<in> set before
            \<and> list_all (caught_round parse) rounds \<and> 20000 \<le> rounds_end rounds 0 500"
  then obtain e where e: "finish (doInitialize toolName toolArgs parse (concat rounds)) = Thrown e"
      "isTransport e"
    using exhausted_throws by blast
  have s: "mcpSessionCall toolName toolArgs parse (env k) = Some (Inl e)"
    using e(1) n chain_rejects [of toolName toolArgs parse before d "concat rounds" e after] by simp
  have t: "isTransient e" using e(2) by (rule isTransport_isTransient)
  show "\<exists>e. finish (doInitialize toolName toolArgs parse (concat rounds)) = Thrown e
          \<and> mcpSessionCall toolName toolArgs parse (env k) = Some (Inl e) \<and> isTransient e"
    using e(1) s t by blast
  {
    assume m: "int k + 1 < maxRetries"
    have r: "k + 2 \<le> attempts (mcpToolCall toolName toolArgs maxRetries parse env)
       \<and> take (k + 1) (waits (mcpToolCall toolName toolArgs maxRetries parse env)) = retry_delays (k + 1)"
      using assms(1) s t m by (rule mcpToolCall_retries)
    show "k + 2 \<le> attempts (mcpToolCall toolName toolArgs maxRetries parse env)"
      using r by simp
    show "take (k + 1) (waits (mcpToolCall toolName toolArgs maxRetries parse env))
            = map (\<lambda>i. 3000 * (int i + 1)) [0..<k + 1]"
      using r by (simp add: retry_delays_def)
  }
  {
    assume m: "int k + 1 = maxRetries"
    then have "(\<exists>v. (Inl e :: js_error + jv) = Inr v) \<or> (\<exists>e'. (Inl e :: js_error + jv) = Inl e' \<and> \<not> isTransient e')
               \<or> int k = maxRetries - 1"
      by simp
    from mcpToolCall_ends [OF assms(1,2) s this]
    show "attempts (mcpToolCall toolName toolArgs maxRetries parse env) = k + 1" by simp
  }
qed

lemma sse_closed_session:
  "mcpSessionCall ''get_ads'' JNull (\<lambda>s. None)
     [EsEndpoint ''/message?sessionId=1'', ChainEnds [(120, Responds init_ok), (300, Responds sse_closed)]]
   = Some (Inl (Error ''MCP error -32000: SSE stream closed''))"
proof -
  have "finish (doInitialize ''get_ads'' JNull (\<lambda>s. None) [(120, Responds init_ok), (300, Responds sse_closed)])
        = Rejected (Error ''MCP error -32000: SSE stream closed'')"
    by (simp add: doInitialize_def init_try_def call_try_def Let_def init_ok_def sse_closed_def
        js_get_def truthy_def mcp_error_def)
  then show ?thesis by (simp add: session_rejects)
qed

lemma sse_closed_transient: "isTransient (Error ''MCP error -32000: SSE stream closed'')"
  by (simp add: isTransient_def startsWith_def)

text \<open>
  Claim C2 as stated fails: a tool call answered with the protocol error
  \<^verbatim>\<open>{code: -32000, message: "SSE stream closed"}\<close> is retried as a whole session,
  twice with a maximum of three, because the message holds \<^verbatim>\<open>SSE\<close>.
\<close>

theorem retry_classification_counterexample:
  "protocol_error [(120, Responds init_ok), (300, Responds sse_closed)]
     = Some (JObj [(''code'', JNum ''-32000''), (''message'', JStr ''SSE stream closed'')])
   \<and> mcpToolCall ''get_ads'' JNull 3 (\<lambda>s. None)
       (\<lambda>i. [EsEndpoint ''/message?sessionId=1'',
             ChainEnds [(120, Responds init_ok), (300, Responds sse_closed)]])
     = \<lparr>outcome = Some (Inl (Error ''MCP error -32000: SSE stream closed'')),
        waits = [3000, 6000], attempts = 3\<rparr>"
proof -
  let ?env = "\<lambda>i::nat. [EsEndpoint ''/message?sessionId=1'',
             ChainEnds [(120, Responds init_ok), (300, Responds sse_closed)]]"
  have p: "protocol_error [(120, Responds init_ok), (300, Responds sse_closed)]
     = Some (JObj [(''code'', JNum ''-32000''), (''message'', JStr ''SSE stream closed'')])"
    by (simp add: init_ok_def sse_closed_def js_get_def truthy_def)
  have h1: "\<forall>i<2. \<exists>e. mcpSessionCall ''get_ads'' JNull (\<lambda>s. None) (?env i) = Some (Inl e) \<and> isTransient e"
    using sse_closed_session sse_closed_transient by blast
  have h2: "int 2 < 3" by simp
  have h3: "mcpSessionCall ''get_ads'' JNull (\<lambda>s. None) (?env 2)
              = Some (Inl (Error ''MCP error -32000: SSE stream closed''))"
    using sse_closed_session by simp
  have h4: "(\<exists>v. (Inl (Error ''MCP error -32000: SSE stream closed'') :: js_error + jv) = Inr v)
          \<or> (\<exists>e. (Inl (Error ''MCP error -32000: SSE stream closed'') :: js_error + jv) = Inl e \<and> \<not> isTransient e)
          \<or> int 2 = 3 - 1"
    by simp
  have "mcpToolCall ''get_ads'' JNull 3 (\<lambda>s. None) ?env
     = \<lparr>outcome = Some (Inl (Error ''MCP error -32000: SSE stream closed'')),
        waits = retry_delays 2, attempts = 2 + 1\<rparr>"
    using h1 h2 h3 h4 by (rule mcpToolCall_ends)
  then show ?thesis using p by (simp add: retry_delays_def upt_rec)
qed

text \<open>
  The theorem at a first attempt of three. The protocol error
  \<^verbatim>\<open>{code: -32000, message: "bad key"}\<close> answers the initialize request after one
  poll answered with \<^verbatim>\<open>POST 400\<close>: one session, no retry. It answers the tool call
  after a poll answered with \<^verbatim>\<open>POST 400\<close> and a pass whose tool call was answered with
  \<^verbatim>\<open>POST 400\<close>, the session timer firing later: one session, no retry. Every poll is
  answered with \<^verbatim>\<open>POST 400\<close>: a second session after 3000 ms.
\<close>

theorem retry_classification_witness:
  "int 0 < 3
   \<and> mcpSessionCall ''get_ads'' JNull (\<lambda>s. None) [EsEndpoint ''/message?sessionId=1''] = None
   \<and> list_all (caught_round (\<lambda>s. None)) [[(0, Rejects not_ready)]]
   \<and> rounds_end [[(0, Rejects not_ready)]] 0 500 < 20000
   \<and> protocol_error [(0, Responds bad_key)]
       = Some (JObj [(''code'', JNum ''-32000''), (''message'', JStr ''bad key'')])
   \<and> \<not> isTransient (mcp_error (JObj [(''code'', JNum ''-32000''), (''message'', JStr ''bad key'')]))
   \<and> mcpToolCall ''get_ads'' JNull 3 (\<lambda>s. None)
        (\<lambda>i. [EsEndpoint ''/message?sessionId=1'',
              ChainEnds [(0, Rejects not_ready), (0, Responds bad_key)]])
       = \<lparr>outcome = Some (Inl (Error ''MCP error -32000: bad key'')), waits = [], attempts = 1\<rparr>
   \<and> list_all (caught_round (\<lambda>s. None))
        [[(0, Rejects not_ready)], [(120, Responds init_ok), (300, Rejects not_ready)]]
   \<and> rounds_end [[(0, Rejects not_ready)], [(120, Responds init_ok), (300, Rejects not_ready)]] 0 500
        < 20000
   \<and> protocol_error [(120, Responds init_ok), (300, Responds bad_key)]
       = Some (JObj [(''code'', JNum ''-32000''), (''message'', JStr ''bad key'')])
   \<and> mcpToolCall ''get_ads'' JNull 3 (\<lambda>s. None)
        (\<lambda>i. [EsEndpoint ''/message?sessionId=1'',
              ChainEnds [(0, Rejects not_ready), (120, Responds init_ok), (300, Rejects not_ready),
                         (120, Responds init_ok), (300, Responds bad_key)],
              SessionTimer])
       = \<lparr>outcome = Some (Inl (Error ''MCP error -32000: bad key'')), waits = [], attempts = 1\<rparr>
   \<and> list_all (caught_round (\<lambda>s. None)) (replicate 40 [(0, Rejects not_ready)])
   \<and> 20000 \<le> rounds_end (replicate 40 [(0, Rejects not_ready)]) 0 500
   \<and> 2 \<le> attempts (mcpToolCall ''get_ads'' JNull 3 (\<lambda>s. None)
        (\<lambda>i. [EsEndpoint ''/message?sessionId=1'', ChainEnds (replicate 40 (0, Rejects not_ready))]))
   \<and> take 1 (waits (mcpToolCall ''get_ads'' JNull 3 (\<lambda>s. None)
        (\<lambda>i. [EsEndpoint ''/message?sessionId=1'', ChainEnds (replicate 40 (0, Rejects not_ready))])))
       = [3000]"
proof -
  let ?err = "JObj [(''code'', JNum ''-32000''), (''message'', JStr ''bad key'')]"
  let ?url = "''/message?sessionId=1''"
  let ?r1 = "[[(0 :: rat, Rejects not_ready)]]"
  let ?r2 = "[[(0 :: rat, Rejects not_ready)], [(120, Responds init_ok), (300, Rejects not_ready)]]"
  let ?r3 = "replicate 40 [(0 :: rat, Rejects not_ready)]"
  let ?envA = "\<lambda>i::nat. [EsEndpoint ?url, ChainEnds [(0, Rejects not_ready), (0, Responds bad_key)]]"
  let ?envB = "\<lambda>i::nat. [EsEndpoint ?url,
              ChainEnds [(0, Rejects not_ready), (120, Responds init_ok), (300, Rejects not_ready),
                         (120, Responds init_ok), (300, Responds bad_key)],
              SessionTimer]"
  let ?envC = "\<lambda>i::nat. [EsEndpoint ?url, ChainEnds (replicate 40 (0, Rejects not_ready))]"
  have k: "int 0 < 3" by simp
  have none: "\<forall>i<0::nat. \<exists>e. mcpSessionCall ''get_ads'' JNull (\<lambda>s. None) (env i) = Some (Inl e)
                \<and> isTransient e" for env
    by simp
  have b: "mcpSessionCall ''get_ads'' JNull (\<lambda>s. None) [EsEndpoint ?url] = None"
    by (simp add: mcpSessionCall_def run_session_def on_event_def session_init_def)
  have d: "EsEndpoint ?url \<in> set [EsEndpoint ?url]" by simp
  have io: "init_try (Responds init_ok) = None"
    by (simp add: init_try_def init_ok_def js_get_def truthy_def)
  have ct: "call_try (\<lambda>s. None) (Rejects not_ready) = Call_caught not_ready Calling"
    by (simp add: call_try_def)
  have c1: "list_all (caught_round (\<lambda>s. None)) ?r1"
    using not_ready_transport by simp
  have c2: "list_all (caught_round (\<lambda>s. None)) ?r2"
    using not_ready_transport io ct by simp
  have a3: "all_not_ready (replicate 40 (0, Rejects not_ready))"
    using not_ready_transport by (simp add: all_not_ready_def list_all_iff)
  have m3: "map (\<lambda>x. [x]) (replicate 40 (0 :: rat, Rejects not_ready)) = ?r3" by simp
  have c3: "list_all (caught_round (\<lambda>s. None)) ?r3"
    using not_ready_rounds [OF a3, of "\<lambda>s. None"] by (simp only: m3)
  have cc3: "concat ?r3 = replicate 40 (0, Rejects not_ready)"
    using not_ready_rounds [OF a3, of "\<lambda>s. None"] by (simp only: m3)
  have e1: "rounds_end ?r1 0 500 < 20000" by (simp add: next_delay_def)
  have e2: "rounds_end ?r2 0 500 < 20000" by (simp add: next_delay_def)
  have e3: "20000 \<le> rounds_end ?r3 0 500"
    using not_ready_rounds [OF a3, of "\<lambda>s. None"] by (simp only: m3) simp
  have p1: "protocol_error [(0, Responds bad_key)] = Some ?err"
    by (simp add: bad_key_def js_get_def truthy_def)
  have p2: "protocol_error [(120, Responds init_ok), (300, Responds bad_key)] = Some ?err"
    by (simp add: bad_key_def init_ok_def js_get_def truthy_def)
  have m: "mcp_error ?err = Error ''MCP error -32000: bad key''"
    by (simp add: mcp_error_def js_get_def)
  have nt: "\<not> isTransient (mcp_error ?err)"
    unfolding m by (simp add: isTransient_def startsWith_def)
  have A: "mcpToolCall ''get_ads'' JNull 3 (\<lambda>s. None) ?envA
       = \<lparr>outcome = Some (Inl (mcp_error ?err)),
          waits = map (\<lambda>i. 3000 * (int i + 1)) [0..<0], attempts = 0 + 1\<rparr>"
    using retry_classification [OF none k, where env = ?envA and err = ?err
        and before = "[EsEndpoint ?url]" and rounds = ?r1 and rest = "[(0, Responds bad_key)]"
        and after = "[]" and d = ?url] b d c1 e1 p1 nt
    by simp
  have B: "mcpToolCall ''get_ads'' JNull 3 (\<lambda>s. None) ?envB
       = \<lparr>outcome = Some (Inl (mcp_error ?err)),
          waits = map (\<lambda>i. 3000 * (int i + 1)) [0..<0], attempts = 0 + 1\<rparr>"
    using retry_classification [OF none k, where env = ?envB and err = ?err
        and before = "[EsEndpoint ?url]" and rounds = ?r2
        and rest = "[(120, Responds init_ok), (300, Responds bad_key)]"
        and after = "[SessionTimer]" and d = ?url]
      b d c2 e2 p2 nt
    by simp
  have C: "2 \<le> attempts (mcpToolCall ''get_ads'' JNull 3 (\<lambda>s. None) ?envC)
   \<and> take 1 (waits (mcpToolCall ''get_ads'' JNull 3 (\<lambda>s. None) ?envC)) = [3000]"
    using retry_classification [OF none k, where env = ?envC and err = ?err
        and before = "[EsEndpoint ?url]" and rounds = ?r3 and rest = "[]"
        and after = "[]" and d = ?url] b d c3 e3
    by (simp add: cc3)
  have A': "mcpToolCall ''get_ads'' JNull 3 (\<lambda>s. None) ?envA
       = \<lparr>outcome = Some (Inl (Error ''MCP error -32000: bad key'')), waits = [], attempts = 1\<rparr>"
    using A m by simp
  have B': "mcpToolCall ''get_ads'' JNull 3 (\<lambda>s. None) ?envB
       = \<lparr>outcome = Some (Inl (Error ''MCP error -32000: bad key'')), waits = [], attempts = 1\<rparr>"
    using B m by simp
  show ?thesis using k b c1 e1 p1 nt A' c2 e2 p2 B' c3 e3 C by blast
qed

section \<open>Proofs: result extraction\<close>







section \<open>Proofs: the Request Correlator\<close>

lemma corr_inv_init: "corr_inv correlator_init"
  by (simp add: corr_inv_def correlator_init_def)

lemma calls_of_append: "calls_of (c\<lparr>calls := calls c @ [(h, x)]\<rparr>) h' =
    (if h' = h then calls_of c h @ [x] else calls_of c h')"
  by (simp add: calls_of_def)

lemma calls_of_fresh:
  assumes "\<forall>x \<in> set (calls c). fst x < length (requests c)"
  shows "calls_of c (length (requests c)) = []"
proof -
  have "filter (\<lambda>x. fst x = length (requests c)) (calls c) = []"
    using assms by (auto simp: filter_empty_conv)
  then show ?thesis by (simp add: calls_of_def)
qed

lemma corr_invI:
  assumes "\<And>i h. pending c i = Some h \<Longrightarrow> h \<in> armed c \<and> request_id c h = i"
    and "\<And>h. h \<in> armed c \<Longrightarrow> h < length (requests c) \<and> calls_of c h = []"
    and "\<And>x. x \<in> set (calls c) \<Longrightarrow> fst x < length (requests c)"
  shows "corr_inv c"
  unfolding corr_inv_def using assms by blast

lemma inv_PostRpc:
  assumes "corr_inv c"
  shows "corr_inv (corr_step c (PostRpc idv method))"
proof (rule corr_invI)
  let ?n = "length (requests c)"
  let ?c = "corr_step c (PostRpc idv method)"
  have fresh: "calls_of c ?n = []"
    using assms calls_of_fresh by (simp add: corr_inv_def)
  have rid: "h < ?n \<Longrightarrow> fst ((requests c @ [(idv, method)]) ! h) = request_id c h" for h
    by (simp add: request_id_def nth_append)
  have old: "pending c i = Some h \<Longrightarrow> h \<in> armed c \<and> request_id c h = i \<and> h < ?n" for i h
    using assms by (auto simp: corr_inv_def)
  show "h \<in> armed ?c \<and> request_id ?c h = i" if p: "pending ?c i = Some h" for i h
  proof (cases "i = idv")
    case True
    with p show ?thesis by (auto simp: corr_step_def request_id_def nth_append)
  next
    case False
    with p have "pending c i = Some h" by (simp add: corr_step_def)
    from old [OF this] show ?thesis
      using rid [of h] by (simp add: corr_step_def request_id_def)
  qed
  show "h < length (requests ?c) \<and> calls_of ?c h = []" if a: "h \<in> armed ?c" for h
  proof -
    from a have "h = ?n \<or> h \<in> armed c" by (simp add: corr_step_def)
    then show ?thesis
      using fresh assms by (auto simp: corr_inv_def corr_step_def calls_of_def)
  qed
  show "fst x < length (requests ?c)" if "x \<in> set (calls ?c)" for x
    using that assms by (auto simp: corr_inv_def corr_step_def)
qed

text \<open>
  The three updates that call a promise have one shape: the request leaves the armed
  set, an entry of the \<^verbatim>\<open>Map\<close> is deleted, and the call is recorded.
\<close>

lemma inv_call:
  assumes "corr_inv c" and "h < length (requests c)"
    and "pending c i = Some h \<or> i = request_id c h"
  shows "corr_inv (c\<lparr>pending := (pending c)(i := None), armed := armed c - {h},
                    calls := calls c @ [(h, x)]\<rparr>)"
proof (rule corr_invI)
  let ?c = "c\<lparr>pending := (pending c)(i := None), armed := armed c - {h},
              calls := calls c @ [(h, x)]\<rparr>"
  have rid: "pending c j = Some h' \<Longrightarrow> request_id c h' = j" for j h'
    using assms(1) by (simp add: corr_inv_def)
  have i: "i = request_id c h"
    using assms(3) rid by blast
  have other: "pending c j = Some h' \<Longrightarrow> j \<noteq> i \<Longrightarrow> h' \<noteq> h" for j h'
    using rid [of j h'] i by blast
  show "h' \<in> armed ?c \<and> request_id ?c h' = j" if "pending ?c j = Some h'" for j h'
  proof -
    from that have p: "pending c j = Some h'" and ji: "j \<noteq> i" by (auto split: if_splits)
    then show ?thesis
      using assms(1) other [OF p ji] by (auto simp: corr_inv_def request_id_def)
  qed
  show "h' < length (requests ?c) \<and> calls_of ?c h' = []" if "h' \<in> armed ?c" for h'
  proof -
    from that have a: "h' \<in> armed c" "h' \<noteq> h" by auto
    then show ?thesis
      using assms(1) by (auto simp: corr_inv_def calls_of_def)
  qed
  show "fst y < length (requests ?c)" if "y \<in> set (calls ?c)" for y
    using that assms(1,2) by (auto simp: corr_inv_def)
qed

lemma step_Message_matched:
  assumes "\<not> nullish data" "\<not> nullish (js_get data ''id'')" "\<not> is_reference (js_get data ''id'')"
    and "pending c (js_get data ''id'') = Some h"
  shows "corr_step c (Message (Some data)) =
         c\<lparr>pending := (pending c)(js_get data ''id'' := None), armed := armed c - {h},
           calls := calls c @ [(h, Responds data)]\<rparr>"
  using assms by (simp add: corr_step_def)

lemma step_Message_unmatched:
  "pending c (js_get data ''id'') = None \<Longrightarrow> corr_step c (Message (Some data)) = c"
  by (simp add: corr_step_def)

lemma step_TimerFires:
  "h \<in> armed c \<Longrightarrow> corr_step c (TimerFires h) =
     c\<lparr>pending := (pending c)(request_id c h := None), armed := armed c - {h},
       calls := calls c @ [(h, Rejects (rpc_timeout_error (request_method c h)))]\<rparr>"
  by (simp add: corr_step_def)

lemma step_TimerFires_idle: "h \<notin> armed c \<Longrightarrow> corr_step c (TimerFires h) = c"
  by (simp add: corr_step_def)

lemma post_fails_shape:
  "post_fails c h err =
     c\<lparr>pending := (pending c)(request_id c h := None), armed := armed c - {h},
       calls := calls c @ [(h, Rejects err)]\<rparr>"
  by (simp add: post_fails_def)

lemma inv_step:
  assumes "corr_inv c"
  shows "corr_inv (corr_step c ev)"
proof (cases ev)
  case (PostRpc idv meth)
  with assms show ?thesis by (simp add: inv_PostRpc)
next
  case (Message d)
  show ?thesis
  proof (cases d)
    case None
    with assms Message show ?thesis by (simp add: corr_step_def)
  next
    case (Some data)
    show ?thesis
    proof (cases "\<not> nullish data \<and> \<not> nullish (js_get data ''id'')
                  \<and> \<not> is_reference (js_get data ''id'')
                  \<and> pending c (js_get data ''id'') \<noteq> None")
      case True
      then obtain h where h: "pending c (js_get data ''id'') = Some h" by auto
      have lt: "h < length (requests c)" using assms h by (auto simp: corr_inv_def)
      show ?thesis
        unfolding Message Some
        using True h inv_call [OF assms lt, of "js_get data ''id''"]
        by (simp add: step_Message_matched)
    next
      case False
      then have "corr_step c (Message (Some data)) = c"
        by (auto simp: corr_step_def)
      with assms Message Some show ?thesis by simp
    qed
  qed
next
  case (TimerFires h)
  show ?thesis
  proof (cases "h \<in> armed c")
    case True
    have lt: "h < length (requests c)" using assms True by (auto simp: corr_inv_def)
    show ?thesis
      unfolding TimerFires
      using inv_call [OF assms lt, of "request_id c h"] by (simp add: step_TimerFires [OF True])
  next
    case False
    with assms TimerFires show ?thesis by (simp add: step_TimerFires_idle)
  qed
next
  case (PostStatus h status body)
  show ?thesis
  proof (cases "h < length (requests c) \<and> status \<noteq> 200 \<and> status \<noteq> 202")
    case True
    then have lt: "h < length (requests c)" by simp
    show ?thesis
      unfolding PostStatus
      using True inv_call [OF assms lt, of "request_id c h"]
      by (simp add: corr_step_def post_fails_shape)
  next
    case False
    then have "corr_step c (PostStatus h status body) = c" by (auto simp: corr_step_def)
    with assms PostStatus show ?thesis by simp
  qed
next
  case (FetchFails h err)
  show ?thesis
  proof (cases "h < length (requests c)")
    case True
    show ?thesis
      unfolding FetchFails
      using True inv_call [OF assms True, of "request_id c h"]
      by (simp add: corr_step_def post_fails_shape)
  next
    case False
    with assms FetchFails show ?thesis by (simp add: corr_step_def)
  qed
qed

lemma inv_foldl: "corr_inv c \<Longrightarrow> corr_inv (foldl corr_step c evs)"
  by (induction evs arbitrary: c) (simp_all add: inv_step)

lemma inv_run: "corr_inv (run_correlator evs)"
  unfolding run_correlator_def using corr_inv_init by (rule inv_foldl)

lemma once_step:
  assumes "corr_inv c" and "\<not> is_post_event ev" and "length (calls_of c h) \<le> 1"
  shows "length (calls_of (corr_step c ev) h) \<le> 1"
proof (cases ev)
  case (PostRpc idv meth)
  with assms(3) show ?thesis by (simp add: corr_step_def calls_of_def)
next
  case (Message d)
  show ?thesis
  proof (cases "corr_step c ev = c")
    case True
    with assms(3) show ?thesis by simp
  next
    case False
    then obtain data h' where d: "d = Some data" and p: "pending c (js_get data ''id'') = Some h'"
      and st: "corr_step c ev = c\<lparr>pending := (pending c)(js_get data ''id'' := None),
                 armed := armed c - {h'}, calls := calls c @ [(h', Responds data)]\<rparr>"
      unfolding Message by (auto simp: corr_step_def split: option.splits if_splits)
    have "calls_of c h' = []" using assms(1) p by (auto simp: corr_inv_def)
    then show ?thesis
      using assms(3) unfolding st by (auto simp: calls_of_def)
  qed
next
  case (TimerFires h')
  show ?thesis
  proof (cases "h' \<in> armed c")
    case True
    have "calls_of c h' = []" using assms(1) True by (auto simp: corr_inv_def)
    then show ?thesis
      using assms(3) unfolding TimerFires step_TimerFires [OF True] by (auto simp: calls_of_def)
  next
    case False
    with assms(3) TimerFires show ?thesis by (simp add: step_TimerFires_idle)
  qed
next
  case (PostStatus h' status body)
  with assms(2) show ?thesis by simp
next
  case (FetchFails h' err)
  with assms(2) show ?thesis by simp
qed

lemma once_foldl:
  assumes "corr_inv c" and "\<forall>ev \<in> set evs. \<not> is_post_event ev" and "length (calls_of c h) \<le> 1"
  shows "length (calls_of (foldl corr_step c evs) h) \<le> 1"
  using assms
proof (induction evs arbitrary: c)
  case Nil
  then show ?case by simp
next
  case (Cons ev evs)
  have "corr_inv (corr_step c ev)" using Cons.prems(1) by (rule inv_step)
  moreover have "length (calls_of (corr_step c ev) h) \<le> 1"
    using Cons.prems(1) _ Cons.prems(3) by (rule once_step) (use Cons.prems(2) in simp)
  ultimately show ?case using Cons.IH Cons.prems(2) by simp
qed

lemma once_run:
  "\<forall>ev \<in> set evs. \<not> is_post_event ev \<Longrightarrow> length (calls_of (run_correlator evs) h) \<le> 1"
  unfolding run_correlator_def
  using corr_inv_init by (rule once_foldl) (simp_all add: calls_of_def correlator_init_def)

lemma matched_frame:
  assumes "corr_inv c" and "pending c (js_get data ''id'') = Some h"
    and "\<not> nullish data" "\<not> nullish (js_get data ''id'')" "\<not> is_reference (js_get data ''id'')"
  shows "request_id c h = js_get data ''id''
    \<and> calls_of c h = []
    \<and> calls_of (corr_step c (Message (Some data))) h = [Responds data]
    \<and> (\<forall>h'. h' \<noteq> h \<longrightarrow> calls_of (corr_step c (Message (Some data))) h' = calls_of c h')
    \<and> corr_step (corr_step c (Message (Some data))) (TimerFires h) = corr_step c (Message (Some data))
    \<and> corr_step (corr_step c (Message (Some data))) (Message (Some data)) = corr_step c (Message (Some data))"
proof (intro conjI)
  have st: "corr_step c (Message (Some data)) =
         c\<lparr>pending := (pending c)(js_get data ''id'' := None), armed := armed c - {h},
           calls := calls c @ [(h, Responds data)]\<rparr>"
    using assms(3,4,5,2) by (rule step_Message_matched)
  show "request_id c h = js_get data ''id''" using assms(1,2) by (simp add: corr_inv_def)
  show e: "calls_of c h = []" using assms(1,2) by (auto simp: corr_inv_def)
  show "calls_of (corr_step c (Message (Some data))) h = [Responds data]"
    unfolding st using e by (simp add: calls_of_def)
  show "\<forall>h'. h' \<noteq> h \<longrightarrow> calls_of (corr_step c (Message (Some data))) h' = calls_of c h'"
    unfolding st by (simp add: calls_of_def)
  show "corr_step (corr_step c (Message (Some data))) (TimerFires h) = corr_step c (Message (Some data))"
    unfolding st by (simp add: step_TimerFires_idle)
  show "corr_step (corr_step c (Message (Some data))) (Message (Some data)) = corr_step c (Message (Some data))"
    unfolding st by (simp add: step_Message_unmatched)
qed

lemma timer_fired:
  assumes "corr_inv c" and "h \<in> armed c"
  shows "calls_of c h = []
    \<and> calls_of (corr_step c (TimerFires h)) h = [Rejects (rpc_timeout_error (request_method c h))]
    \<and> (js_get data ''id'' = request_id c h \<longrightarrow>
         corr_step (corr_step c (TimerFires h)) (Message (Some data)) = corr_step c (TimerFires h))
    \<and> corr_step (corr_step c (TimerFires h)) (TimerFires h) = corr_step c (TimerFires h)"
proof (intro conjI)
  show e: "calls_of c h = []" using assms by (auto simp: corr_inv_def)
  show "calls_of (corr_step c (TimerFires h)) h = [Rejects (rpc_timeout_error (request_method c h))]"
    unfolding step_TimerFires [OF assms(2)] using e by (simp add: calls_of_def)
  show "js_get data ''id'' = request_id c h \<longrightarrow>
         corr_step (corr_step c (TimerFires h)) (Message (Some data)) = corr_step c (TimerFires h)"
    unfolding step_TimerFires [OF assms(2)] by (simp add: step_Message_unmatched)
  show "corr_step (corr_step c (TimerFires h)) (TimerFires h) = corr_step c (TimerFires h)"
    unfolding step_TimerFires [OF assms(2)] by (simp add: step_TimerFires_idle)
qed

lemma requests_step: "requests (corr_step c ev) = requests c @ registered [ev]"
  by (cases ev)
    (auto simp: corr_step_def post_fails_def split: option.splits)

lemma requests_foldl: "requests (foldl corr_step c evs) = requests c @ registered evs"
proof (induction evs arbitrary: c)
  case Nil
  show ?case by simp
next
  case (Cons ev evs)
  have "registered (ev # evs) = registered [ev] @ registered evs"
    by (cases ev) simp_all
  then show ?case using Cons.IH [of "corr_step c ev"] by (simp add: requests_step)
qed

text \<open>
  Every step either registers a request, or changes nothing, or calls a promise: then
  the request leaves the armed set, an entry of the \<^verbatim>\<open>Map\<close> is deleted, and the call is
  recorded.
\<close>

lemma step_shape:
  assumes "corr_inv c"
  shows "(\<exists>idv m. ev = PostRpc idv m)
       \<or> corr_step c ev = c
       \<or> (\<exists>i h x. corr_step c ev
              = c\<lparr>pending := (pending c)(i := None), armed := armed c - {h},
                  calls := calls c @ [(h, x)]\<rparr>
            \<and> h < length (requests c)
            \<and> ((\<exists>data. x = Responds data \<and> js_get data ''id'' = i \<and> pending c i = Some h)
               \<or> ((\<exists>e. x = Rejects e) \<and> i = request_id c h
                    \<and> (h \<in> armed c \<or> (admissible c ev \<longrightarrow> \<not> id_in_use c (request_id c h))))))"
proof (cases ev)
  case (PostRpc idv m)
  then show ?thesis by simp
next
  case (Message d)
  show ?thesis
  proof (cases "corr_step c ev = c")
    case True
    then show ?thesis by simp
  next
    case False
    then obtain data h where d: "d = Some data" and p: "pending c (js_get data ''id'') = Some h"
      and st: "corr_step c ev = c\<lparr>pending := (pending c)(js_get data ''id'' := None),
                 armed := armed c - {h}, calls := calls c @ [(h, Responds data)]\<rparr>"
      unfolding Message by (auto simp: corr_step_def split: option.splits if_splits)
    have "h < length (requests c)" using assms p by (auto simp: corr_inv_def)
    then show ?thesis using st p by blast
  qed
next
  case (TimerFires h)
  show ?thesis
  proof (cases "h \<in> armed c")
    case True
    have "h < length (requests c)" using assms True by (auto simp: corr_inv_def)
    then show ?thesis
      unfolding TimerFires using step_TimerFires [OF True] True by blast
  next
    case False
    then show ?thesis by (simp add: TimerFires step_TimerFires_idle)
  qed
next
  case (PostStatus h status body)
  show ?thesis
  proof (cases "h < length (requests c) \<and> status \<noteq> 200 \<and> status \<noteq> 202")
    case True
    then have st: "corr_step c ev = c\<lparr>pending := (pending c)(request_id c h := None),
         armed := armed c - {h}, calls := calls c @ [(h, Rejects (post_status_error status body))]\<rparr>"
      by (simp add: PostStatus corr_step_def post_fails_shape)
    have "admissible c ev \<longrightarrow> h \<in> armed c \<or> \<not> id_in_use c (request_id c h)"
      using True by (auto simp: PostStatus admissible_def fails_apart_def)
    then show ?thesis using st True by blast
  next
    case False
    then have "corr_step c ev = c" by (auto simp: PostStatus corr_step_def)
    then show ?thesis by simp
  qed
next
  case (FetchFails h err)
  show ?thesis
  proof (cases "h < length (requests c)")
    case True
    then have st: "corr_step c ev = c\<lparr>pending := (pending c)(request_id c h := None),
         armed := armed c - {h}, calls := calls c @ [(h, Rejects err)]\<rparr>"
      by (simp add: FetchFails corr_step_def post_fails_shape)
    have "admissible c ev \<longrightarrow> h \<in> armed c \<or> \<not> id_in_use c (request_id c h)"
      using True by (auto simp: FetchFails admissible_def fails_apart_def)
    then show ?thesis using st True by blast
  next
    case False
    then have "corr_step c ev = c" by (auto simp: FetchFails corr_step_def)
    then show ?thesis by simp
  qed
qed

lemma request_id_PostRpc:
  "h < length (requests c) \<Longrightarrow> request_id (corr_step c (PostRpc idv m)) h = request_id c h"
  by (simp add: corr_step_def request_id_def nth_append)

lemma calls_of_PostRpc: "calls_of (corr_step c (PostRpc idv m)) h = calls_of c h"
  by (simp add: corr_step_def calls_of_def)

lemma keyed_step:
  assumes "corr_inv c" and "keyed c" and "admissible c ev"
  shows "keyed (corr_step c ev)"
proof -
  consider (reg) idv m where "ev = PostRpc idv m"
    | (same) "corr_step c ev = c"
    | (call) i h x where "corr_step c ev
              = c\<lparr>pending := (pending c)(i := None), armed := armed c - {h},
                  calls := calls c @ [(h, x)]\<rparr>"
        "pending c i = Some h \<or> (i = request_id c h \<and> (h \<in> armed c \<or> \<not> id_in_use c (request_id c h)))"
    using step_shape [OF assms(1), of ev] assms(3) by blast
  then show ?thesis
  proof cases
    case reg
    have free: "\<not> id_in_use c idv" using assms(3) by (simp add: reg admissible_def)
    show ?thesis
      unfolding keyed_def
    proof
      fix h
      assume a: "h \<in> armed (corr_step c ev)"
      show "pending (corr_step c ev) (request_id (corr_step c ev) h) = Some h"
      proof (cases "h = length (requests c)")
        case True
        then show ?thesis by (simp add: reg corr_step_def request_id_def)
      next
        case False
        with a have h: "h \<in> armed c" by (simp add: reg corr_step_def)
        then have lt: "h < length (requests c)" using assms(1) by (auto simp: corr_inv_def)
        have ne: "request_id c h \<noteq> idv" using free h by (auto simp: id_in_use_def)
        have "pending c (request_id c h) = Some h" using assms(2) h by (simp add: keyed_def)
        then show ?thesis
          unfolding reg request_id_PostRpc [OF lt] using ne by (simp add: corr_step_def)
      qed
    qed
  next
    case same
    with assms(2) show ?thesis by simp
  next
    case call
    show ?thesis
      unfolding keyed_def call(1)
    proof
      fix h'
      assume "h' \<in> armed (c\<lparr>pending := (pending c)(i := None), armed := armed c - {h},
                  calls := calls c @ [(h, x)]\<rparr>)"
      then have a: "h' \<in> armed c" and ne: "h' \<noteq> h" by simp_all
      have p: "pending c (request_id c h') = Some h'" using assms(2) a by (simp add: keyed_def)
      have "request_id c h' \<noteq> i"
      proof
        assume eq: "request_id c h' = i"
        from call(2) show False
        proof (elim disjE conjE)
          assume "pending c i = Some h"
          with p eq ne show False by simp
        next
          assume "i = request_id c h" "h \<in> armed c"
          then have "pending c i = Some h" using assms(2) by (simp add: keyed_def)
          with p eq ne show False by simp
        next
          assume "i = request_id c h" "\<not> id_in_use c (request_id c h)"
          with a eq show False by (auto simp: id_in_use_def)
        qed
      qed
      then show "pending (c\<lparr>pending := (pending c)(i := None), armed := armed c - {h},
                  calls := calls c @ [(h, x)]\<rparr>)
              (request_id (c\<lparr>pending := (pending c)(i := None), armed := armed c - {h},
                  calls := calls c @ [(h, x)]\<rparr>) h') = Some h'"
        using p by (simp add: request_id_def)
    qed
  qed
qed

lemma keyed_foldl:
  "corr_inv c \<Longrightarrow> keyed c \<Longrightarrow> well_keyed c evs \<Longrightarrow> keyed (foldl corr_step c evs)"
proof (induction evs arbitrary: c)
  case Nil
  then show ?case by simp
next
  case (Cons ev evs)
  have "corr_inv (corr_step c ev)" using Cons.prems(1) by (rule inv_step)
  moreover have "keyed (corr_step c ev)"
    using Cons.prems by (simp add: keyed_step)
  ultimately show ?case using Cons.IH Cons.prems(3) by simp
qed

lemma called_step:
  assumes "corr_inv c" and "called c"
  shows "called (corr_step c ev)"
proof -
  consider (reg) idv m where "ev = PostRpc idv m"
    | (same) "corr_step c ev = c"
    | (call) i h x where "corr_step c ev
              = c\<lparr>pending := (pending c)(i := None), armed := armed c - {h},
                  calls := calls c @ [(h, x)]\<rparr>"
    using step_shape [OF assms(1), of ev] by blast
  then show ?thesis
  proof cases
    case reg
    show ?thesis
      unfolding called_def reg calls_of_PostRpc
      using assms(2) by (auto simp: called_def corr_step_def less_Suc_eq)
  next
    case same
    with assms(2) show ?thesis by simp
  next
    case call
    show ?thesis
      unfolding called_def call
      using assms(2) by (auto simp: called_def calls_of_def)
  qed
qed

lemma called_foldl: "corr_inv c \<Longrightarrow> called c \<Longrightarrow> called (foldl corr_step c evs)"
proof (induction evs arbitrary: c)
  case Nil
  then show ?case by simp
next
  case (Cons ev evs)
  have "corr_inv (corr_step c ev)" using Cons.prems(1) by (rule inv_step)
  moreover have "called (corr_step c ev)" using Cons.prems by (rule called_step)
  ultimately show ?case using Cons.IH by simp
qed

lemma resolved_first_step:
  assumes "corr_inv c" and "resolved_first c"
  shows "resolved_first (corr_step c ev)"
proof -
  have reg: "h < length (requests c)" if "Responds data \<in> set (calls_of c h)" for h data
  proof -
    from that obtain y where "y \<in> set (calls c)" "fst y = h" by (auto simp: calls_of_def)
    then show ?thesis using assms(1) by (auto simp: corr_inv_def)
  qed
  consider (reg) idv m where "ev = PostRpc idv m"
    | (same) "corr_step c ev = c"
    | (call) i h x where "corr_step c ev
              = c\<lparr>pending := (pending c)(i := None), armed := armed c - {h},
                  calls := calls c @ [(h, x)]\<rparr>"
        "(\<exists>data. x = Responds data \<and> js_get data ''id'' = i \<and> pending c i = Some h)
         \<or> (\<exists>e. x = Rejects e)"
    using step_shape [OF assms(1), of ev] by blast
  then show ?thesis
  proof cases
    case reg
    show ?thesis
      unfolding resolved_first_def reg calls_of_PostRpc
    proof (intro allI impI)
      fix h data
      assume r: "Responds data \<in> set (calls_of c h)"
      have "h < length (requests c)" using r by (rule \<open>\<And>h data. Responds data \<in> set (calls_of c h) \<Longrightarrow> h < length (requests c)\<close>)
      then show "hd (calls_of c h) = Responds data
          \<and> js_get data ''id'' = request_id (corr_step c (PostRpc idv m)) h
          \<and> list_all (\<lambda>y. \<not> is_response y) (tl (calls_of c h))"
        using assms(2) r by (simp add: resolved_first_def request_id_PostRpc)
    qed
  next
    case same
    with assms(2) show ?thesis by simp
  next
    case call
    let ?c = "c\<lparr>pending := (pending c)(i := None), armed := armed c - {h},
                  calls := calls c @ [(h, x)]\<rparr>"
    have rid: "request_id ?c h' = request_id c h'" for h' by (simp add: request_id_def)
    show ?thesis
      unfolding resolved_first_def call(1)
    proof (intro allI impI)
      fix h' data
      assume r: "Responds data \<in> set (calls_of ?c h')"
      show "hd (calls_of ?c h') = Responds data \<and> js_get data ''id'' = request_id ?c h'
          \<and> list_all (\<lambda>y. \<not> is_response y) (tl (calls_of ?c h'))"
      proof (cases "h' = h")
        case False
        then have "calls_of ?c h' = calls_of c h'" by (simp add: calls_of_def)
        then show ?thesis using r assms(2) by (simp add: resolved_first_def rid)
      next
        case True
        have app: "calls_of ?c h = calls_of c h @ [x]" by (simp add: calls_of_def)
        have r2: "Responds data \<in> set (calls_of c h @ [x])" using r True app by simp
        from call(2) show ?thesis
        proof (elim disjE exE conjE)
          fix d
          assume x: "x = Responds d" and i: "js_get d ''id'' = i" and p: "pending c i = Some h"
          have e: "calls_of c h = []" and ri: "request_id c h = i"
            using assms(1) p by (auto simp: corr_inv_def)
          have "data = d" using r2 e x by simp
          then show ?thesis unfolding True app rid using i ri e x by simp
        next
          fix e
          assume x: "x = Rejects e"
          have r': "Responds data \<in> set (calls_of c h)" using r2 x by simp
          then have ne: "calls_of c h \<noteq> []" by auto
          have old: "hd (calls_of c h) = Responds data \<and> js_get data ''id'' = request_id c h
                \<and> list_all (\<lambda>y. \<not> is_response y) (tl (calls_of c h))"
            using assms(2) r' by (simp add: resolved_first_def)
          show ?thesis unfolding True app rid using old ne by (simp add: x)
        qed
      qed
    qed
  qed
qed

lemma resolved_first_foldl:
  "corr_inv c \<Longrightarrow> resolved_first c \<Longrightarrow> resolved_first (foldl corr_step c evs)"
proof (induction evs arbitrary: c)
  case Nil
  then show ?case by simp
next
  case (Cons ev evs)
  have "corr_inv (corr_step c ev)" using Cons.prems(1) by (rule inv_step)
  moreover have "resolved_first (corr_step c ev)" using Cons.prems by (rule resolved_first_step)
  ultimately show ?case using Cons.IH by simp
qed

lemma frame_skips_settled:
  assumes "corr_inv c" and "h \<notin> armed c"
  shows "calls_of (corr_step c (Message d)) h = calls_of c h"
proof (cases "corr_step c (Message d) = c")
  case True
  then show ?thesis by simp
next
  case False
  then obtain data h' where p: "pending c (js_get data ''id'') = Some h'"
      and st: "corr_step c (Message d) = c\<lparr>pending := (pending c)(js_get data ''id'' := None),
                 armed := armed c - {h'}, calls := calls c @ [(h', Responds data)]\<rparr>"
    by (auto simp: corr_step_def split: option.splits if_splits)
  have "h' \<in> armed c" using assms(1) p by (auto simp: corr_inv_def)
  with assms(2) have "h' \<noteq> h" by auto
  then show ?thesis unfolding st by (simp add: calls_of_def)
qed

lemma run_invariants:
  assumes "well_keyed correlator_init evs"
  shows "corr_inv (run_correlator evs) \<and> keyed (run_correlator evs)
       \<and> called (run_correlator evs) \<and> resolved_first (run_correlator evs)"
proof (intro conjI)
  show "corr_inv (run_correlator evs)" by (rule inv_run)
  show "keyed (run_correlator evs)"
    unfolding run_correlator_def using corr_inv_init _ assms
    by (rule keyed_foldl) (simp add: keyed_def correlator_init_def)
  show "called (run_correlator evs)"
    unfolding run_correlator_def using corr_inv_init
    by (rule called_foldl) (simp add: called_def correlator_init_def)
  show "resolved_first (run_correlator evs)"
    unfolding run_correlator_def using corr_inv_init
    by (rule resolved_first_foldl) (simp add: resolved_first_def correlator_init_def calls_of_def)
qed


lemma timer_skips_others:
  "h' \<noteq> h \<Longrightarrow> calls_of (corr_step c (TimerFires h)) h' = calls_of c h'"
  by (cases "h \<in> armed c") (simp_all add: step_TimerFires step_TimerFires_idle calls_of_def)

text \<open>
  Claim C5, as amended. Let \<open>c\<close> be the correlator after any events (requests
  registered, frames delivered, timers fired, POSTs failed, in any order) that keep the
  ids of the unsettled requests apart: no request was registered under an id that a
  request not yet settled carried, and no POST failed for a settled request while an
  unsettled one carried its id. Then the requests of \<open>c\<close> are those the events
  registered, and a request is unsettled (its timer armed) exactly if its promise has
  never been called. For an unsettled request: a frame that carries its id resolves
  it with the frame, touches no other request, and then neither the request's timer
  nor a second frame with the id has any effect; its timer, if it fires first, rejects
  it with the timeout error, touches no other request, and then neither a frame with
  the id nor the timer has any effect. For a settled request the timer has no effect
  and no frame calls its promise. A frame whose id no unsettled request carries, and
  a frame that does not parse, change nothing. A promise that was resolved was
  resolved by its first call, with a frame carrying the id of the request, and is not
  resolved again; as long as no POST fails, every promise has been called at most
  once.
\<close>

theorem request_correlation:
  fixes evs :: "corr_event list"
  defines "c \<equiv> run_correlator evs"
  assumes "well_keyed correlator_init evs"
  shows "requests c = registered evs
       \<and> (h < length (requests c) \<longrightarrow> (calls_of c h = []) = (h \<in> armed c))
       \<and> (h < length (requests c) \<and> calls_of c h = [] \<and> js_get data ''id'' = request_id c h
            \<and> \<not> nullish data \<and> \<not> nullish (js_get data ''id'')
            \<and> \<not> is_reference (js_get data ''id'') \<longrightarrow>
          calls_of (corr_step c (Message (Some data))) h = [Responds data]
          \<and> (\<forall>h'. h' \<noteq> h \<longrightarrow> calls_of (corr_step c (Message (Some data))) h' = calls_of c h')
          \<and> corr_step (corr_step c (Message (Some data))) (TimerFires h)
              = corr_step c (Message (Some data))
          \<and> corr_step (corr_step c (Message (Some data))) (Message (Some data))
              = corr_step c (Message (Some data)))
       \<and> (h < length (requests c) \<and> calls_of c h = [] \<longrightarrow>
          calls_of (corr_step c (TimerFires h)) h
              = [Rejects (rpc_timeout_error (request_method c h))]
          \<and> (\<forall>h'. h' \<noteq> h \<longrightarrow> calls_of (corr_step c (TimerFires h)) h' = calls_of c h')
          \<and> (js_get data ''id'' = request_id c h \<longrightarrow>
               corr_step (corr_step c (TimerFires h)) (Message (Some data))
                 = corr_step c (TimerFires h))
          \<and> corr_step (corr_step c (TimerFires h)) (TimerFires h) = corr_step c (TimerFires h))
       \<and> (calls_of c h \<noteq> [] \<longrightarrow>
          corr_step c (TimerFires h) = c
          \<and> calls_of (corr_step c (Message d)) h = calls_of c h)
       \<and> ((\<forall>h' < length (requests c). calls_of c h' = [] \<longrightarrow> request_id c h' \<noteq> js_get data ''id'') \<longrightarrow>
          corr_step c (Message (Some data)) = c)
       \<and> corr_step c (Message None) = c
       \<and> (Responds data \<in> set (calls_of c h) \<longrightarrow>
          hd (calls_of c h) = Responds data \<and> js_get data ''id'' = request_id c h
          \<and> list_all (\<lambda>y. \<not> is_response y) (tl (calls_of c h)))
       \<and> ((\<forall>ev \<in> set evs. \<not> is_post_event ev) \<longrightarrow> length (calls_of c h) \<le> 1)"
proof -
  have inv: "corr_inv c" and keyed: "keyed c" and called: "called c" and first: "resolved_first c"
    unfolding c_def using run_invariants [OF assms(2)] by simp_all
  have armed_iff: "(calls_of c h' = []) = (h' \<in> armed c)" if "h' < length (requests c)" for h'
    using that inv called by (auto simp: corr_inv_def called_def)
  have R: "requests c = registered evs"
    unfolding c_def run_correlator_def by (simp add: requests_foldl correlator_init_def)
  have U: "h < length (requests c) \<longrightarrow> (calls_of c h = []) = (h \<in> armed c)"
    using armed_iff [of h] by blast
  have M: "h < length (requests c) \<and> calls_of c h = [] \<and> js_get data ''id'' = request_id c h
            \<and> \<not> nullish data \<and> \<not> nullish (js_get data ''id'')
            \<and> \<not> is_reference (js_get data ''id'') \<longrightarrow>
          calls_of (corr_step c (Message (Some data))) h = [Responds data]
          \<and> (\<forall>h'. h' \<noteq> h \<longrightarrow> calls_of (corr_step c (Message (Some data))) h' = calls_of c h')
          \<and> corr_step (corr_step c (Message (Some data))) (TimerFires h)
              = corr_step c (Message (Some data))
          \<and> corr_step (corr_step c (Message (Some data))) (Message (Some data))
              = corr_step c (Message (Some data))"
  proof
    assume a: "h < length (requests c) \<and> calls_of c h = [] \<and> js_get data ''id'' = request_id c h
            \<and> \<not> nullish data \<and> \<not> nullish (js_get data ''id'')
            \<and> \<not> is_reference (js_get data ''id'')"
    then have "h \<in> armed c" using armed_iff [of h] by blast
    then have "pending c (js_get data ''id'') = Some h" using keyed a by (simp add: keyed_def)
    then show "calls_of (corr_step c (Message (Some data))) h = [Responds data]
          \<and> (\<forall>h'. h' \<noteq> h \<longrightarrow> calls_of (corr_step c (Message (Some data))) h' = calls_of c h')
          \<and> corr_step (corr_step c (Message (Some data))) (TimerFires h)
              = corr_step c (Message (Some data))
          \<and> corr_step (corr_step c (Message (Some data))) (Message (Some data))
              = corr_step c (Message (Some data))"
      using matched_frame [OF inv, of data h] a by blast
  qed
  have T: "h < length (requests c) \<and> calls_of c h = [] \<longrightarrow>
          calls_of (corr_step c (TimerFires h)) h
              = [Rejects (rpc_timeout_error (request_method c h))]
          \<and> (\<forall>h'. h' \<noteq> h \<longrightarrow> calls_of (corr_step c (TimerFires h)) h' = calls_of c h')
          \<and> (js_get data ''id'' = request_id c h \<longrightarrow>
               corr_step (corr_step c (TimerFires h)) (Message (Some data))
                 = corr_step c (TimerFires h))
          \<and> corr_step (corr_step c (TimerFires h)) (TimerFires h) = corr_step c (TimerFires h)"
  proof
    assume a: "h < length (requests c) \<and> calls_of c h = []"
    then have "h \<in> armed c" using armed_iff [of h] by blast
    then show "calls_of (corr_step c (TimerFires h)) h
              = [Rejects (rpc_timeout_error (request_method c h))]
          \<and> (\<forall>h'. h' \<noteq> h \<longrightarrow> calls_of (corr_step c (TimerFires h)) h' = calls_of c h')
          \<and> (js_get data ''id'' = request_id c h \<longrightarrow>
               corr_step (corr_step c (TimerFires h)) (Message (Some data))
                 = corr_step c (TimerFires h))
          \<and> corr_step (corr_step c (TimerFires h)) (TimerFires h) = corr_step c (TimerFires h)"
      using timer_fired [OF inv, of h data] timer_skips_others [of _ h c] by blast
  qed
  have S: "calls_of c h \<noteq> [] \<longrightarrow>
          corr_step c (TimerFires h) = c
          \<and> calls_of (corr_step c (Message d)) h = calls_of c h"
  proof
    assume "calls_of c h \<noteq> []"
    then have "h \<notin> armed c" using inv by (auto simp: corr_inv_def)
    then show "corr_step c (TimerFires h) = c
          \<and> calls_of (corr_step c (Message d)) h = calls_of c h"
      using frame_skips_settled [OF inv] by (simp add: step_TimerFires_idle)
  qed
  have N: "(\<forall>h' < length (requests c). calls_of c h' = [] \<longrightarrow> request_id c h' \<noteq> js_get data ''id'') \<longrightarrow>
          corr_step c (Message (Some data)) = c"
  proof
    assume a: "\<forall>h' < length (requests c). calls_of c h' = [] \<longrightarrow> request_id c h' \<noteq> js_get data ''id''"
    have "pending c (js_get data ''id'') = None"
    proof (rule ccontr)
      assume "pending c (js_get data ''id'') \<noteq> None"
      then obtain h' where "pending c (js_get data ''id'') = Some h'" by auto
      then have "h' \<in> armed c" "request_id c h' = js_get data ''id''"
        using inv by (auto simp: corr_inv_def)
      moreover from this have "h' < length (requests c)" "calls_of c h' = []"
        using inv by (auto simp: corr_inv_def)
      ultimately show False using a by blast
    qed
    then show "corr_step c (Message (Some data)) = c" by (rule step_Message_unmatched)
  qed
  have none: "corr_step c (Message None) = c" by (simp add: corr_step_def)
  have O: "Responds data \<in> set (calls_of c h) \<longrightarrow>
          hd (calls_of c h) = Responds data \<and> js_get data ''id'' = request_id c h
          \<and> list_all (\<lambda>y. \<not> is_response y) (tl (calls_of c h))"
    using first by (simp add: resolved_first_def)
  have once: "(\<forall>ev \<in> set evs. \<not> is_post_event ev) \<longrightarrow> length (calls_of c h) \<le> 1"
    unfolding c_def using once_run by blast
  show ?thesis
    using R U M T S N none O once by (intro conjI)
qed

text \<open>
  Claim C5 as stated fails. Two requests are registered under the id 1 and the timer
  of the first fires: \<^verbatim>\<open>pending.delete(id)\<close> removes the entry of the second, the only
  request still unsettled. The frame with id 1 then matches exactly one unsettled
  request, yet it is dropped, and the second request times out. The same happens when
  the first request times out, the second is registered under the id 1, and then the
  POST of the first fails: at no time do two unsettled requests carry the same id.
\<close>

theorem request_correlation_counterexample:
  "armed (run_correlator [PostRpc (JNum ''1'') ''initialize'', PostRpc (JNum ''1'') ''initialize'',
       TimerFires 0]) = {1}
   \<and> calls (run_correlator [PostRpc (JNum ''1'') ''initialize'', PostRpc (JNum ''1'') ''initialize'',
       TimerFires 0]) = [(0, Rejects (Error ''Timeout waiting for initialize response''))]
   \<and> request_id (run_correlator [PostRpc (JNum ''1'') ''initialize'',
       PostRpc (JNum ''1'') ''initialize'', TimerFires 0]) 1 = js_get init_ok ''id''
   \<and> run_correlator [PostRpc (JNum ''1'') ''initialize'', PostRpc (JNum ''1'') ''initialize'',
       TimerFires 0, Message (Some init_ok)]
     = run_correlator [PostRpc (JNum ''1'') ''initialize'', PostRpc (JNum ''1'') ''initialize'',
       TimerFires 0]
   \<and> calls (run_correlator [PostRpc (JNum ''1'') ''initialize'', PostRpc (JNum ''1'') ''initialize'',
       TimerFires 0, Message (Some init_ok), TimerFires 1])
     = [(0, Rejects (Error ''Timeout waiting for initialize response'')),
        (1, Rejects (Error ''Timeout waiting for initialize response''))]
   \<and> armed (run_correlator [PostRpc (JNum ''1'') ''initialize'', TimerFires 0,
       PostRpc (JNum ''1'') ''initialize'', FetchFails 0 (Error ''fetch failed'')]) = {1}
   \<and> request_id (run_correlator [PostRpc (JNum ''1'') ''initialize'', TimerFires 0,
       PostRpc (JNum ''1'') ''initialize'', FetchFails 0 (Error ''fetch failed'')]) 1
     = js_get init_ok ''id''
   \<and> calls (run_correlator [PostRpc (JNum ''1'') ''initialize'', TimerFires 0,
       PostRpc (JNum ''1'') ''initialize'', FetchFails 0 (Error ''fetch failed''),
       Message (Some init_ok), TimerFires 1])
     = [(0, Rejects (Error ''Timeout waiting for initialize response'')),
        (0, Rejects (Error ''fetch failed'')),
        (1, Rejects (Error ''Timeout waiting for initialize response''))]"
proof -
  have d: "{Suc 0, 0} - {0} = {Suc 0}" by auto
  show ?thesis
    by (simp add: run_correlator_def corr_step_def correlator_init_def post_fails_def init_ok_def
        js_get_def nullish_def request_id_def request_method_def rpc_timeout_error_def d)
qed

text \<open>
  The theorem after a request with id 1 whose POST failed, a second request with
  id 1 and a request with id 2: the frame with id 1 resolves the second request, the
  timer of the third rejects it, the timer of the first has no effect, a frame with
  id 7 is dropped; and a whole run in which the second request is resolved and the
  third times out, each once, whatever arrives later.
\<close>

theorem request_correlation_witness:
  "well_keyed correlator_init
     [PostRpc (JNum ''1'') ''initialize'', FetchFails 0 not_ready,
      PostRpc (JNum ''1'') ''initialize'', PostRpc (JNum ''2'') ''tools/list'']
   \<and> requests (run_correlator
        [PostRpc (JNum ''1'') ''initialize'', FetchFails 0 not_ready,
         PostRpc (JNum ''1'') ''initialize'', PostRpc (JNum ''2'') ''tools/list''])
       = [(JNum ''1'', ''initialize''), (JNum ''1'', ''initialize''), (JNum ''2'', ''tools/list'')]
   \<and> calls (run_correlator
        [PostRpc (JNum ''1'') ''initialize'', FetchFails 0 not_ready,
         PostRpc (JNum ''1'') ''initialize'', PostRpc (JNum ''2'') ''tools/list''])
       = [(0, Rejects not_ready)]
   \<and> js_get init_ok ''id'' = JNum ''1'' \<and> \<not> nullish init_ok
   \<and> \<not> nullish (js_get init_ok ''id'') \<and> \<not> is_reference (js_get init_ok ''id'')
   \<and> calls_of (corr_step (run_correlator
        [PostRpc (JNum ''1'') ''initialize'', FetchFails 0 not_ready,
         PostRpc (JNum ''1'') ''initialize'', PostRpc (JNum ''2'') ''tools/list''])
         (Message (Some init_ok))) 1 = [Responds init_ok]
   \<and> calls_of (corr_step (run_correlator
        [PostRpc (JNum ''1'') ''initialize'', FetchFails 0 not_ready,
         PostRpc (JNum ''1'') ''initialize'', PostRpc (JNum ''2'') ''tools/list''])
         (TimerFires 2)) 2 = [Rejects (Error ''Timeout waiting for tools/list response'')]
   \<and> corr_step (run_correlator
        [PostRpc (JNum ''1'') ''initialize'', FetchFails 0 not_ready,
         PostRpc (JNum ''1'') ''initialize'', PostRpc (JNum ''2'') ''tools/list''])
         (TimerFires 0)
       = run_correlator
        [PostRpc (JNum ''1'') ''initialize'', FetchFails 0 not_ready,
         PostRpc (JNum ''1'') ''initialize'', PostRpc (JNum ''2'') ''tools/list'']
   \<and> corr_step (run_correlator
        [PostRpc (JNum ''1'') ''initialize'', FetchFails 0 not_ready,
         PostRpc (JNum ''1'') ''initialize'', PostRpc (JNum ''2'') ''tools/list''])
         (Message (Some stray_frame))
       = run_correlator
        [PostRpc (JNum ''1'') ''initialize'', FetchFails 0 not_ready,
         PostRpc (JNum ''1'') ''initialize'', PostRpc (JNum ''2'') ''tools/list'']
   \<and> calls (run_correlator
        [PostRpc (JNum ''1'') ''initialize'', FetchFails 0 not_ready,
         PostRpc (JNum ''1'') ''initialize'', PostRpc (JNum ''2'') ''tools/list'',
         Message (Some init_ok), Message (Some stray_frame), TimerFires 2,
         Message (Some tools_reply), TimerFires 1, Message (Some init_ok)])
       = [(0, Rejects not_ready), (1, Responds init_ok),
          (2, Rejects (Error ''Timeout waiting for tools/list response''))]"
proof -
  let ?evs = "[PostRpc (JNum ''1'') ''initialize'', FetchFails 0 not_ready,
         PostRpc (JNum ''1'') ''initialize'', PostRpc (JNum ''2'') ''tools/list'']"
  have run: "run_correlator ?evs =
     \<lparr>requests = [(JNum ''1'', ''initialize''), (JNum ''1'', ''initialize''), (JNum ''2'', ''tools/list'')],
      pending = [JNum ''1'' \<mapsto> 1, JNum ''2'' \<mapsto> 2], armed = {2, 1},
      calls = [(0, Rejects not_ready)]\<rparr>"
    by (auto simp: run_correlator_def corr_step_def correlator_init_def post_fails_def
        request_id_def)
  have w: "well_keyed correlator_init ?evs"
    by (simp add: admissible_def fails_apart_def id_in_use_def corr_step_def correlator_init_def
        post_fails_def request_id_def)
  have r: "requests (run_correlator ?evs)
       = [(JNum ''1'', ''initialize''), (JNum ''1'', ''initialize''), (JNum ''2'', ''tools/list'')]"
    using request_correlation [OF w] by simp
  have cs: "calls (run_correlator ?evs) = [(0, Rejects not_ready)]" unfolding run by simp
  have c0: "calls_of (run_correlator ?evs) 0 \<noteq> []" unfolding run by (simp add: calls_of_def)
  have c1: "calls_of (run_correlator ?evs) 1 = []" unfolding run by (simp add: calls_of_def)
  have c2: "calls_of (run_correlator ?evs) 2 = []" unfolding run by (simp add: calls_of_def)
  have l1: "1 < length (requests (run_correlator ?evs))" unfolding run by simp
  have l2: "2 < length (requests (run_correlator ?evs))" unfolding run by simp
  have i1: "js_get init_ok ''id'' = JNum ''1''" by (simp add: init_ok_def js_get_def)
  have i2: "js_get init_ok ''id'' = request_id (run_correlator ?evs) 1"
    unfolding run by (simp add: init_ok_def js_get_def request_id_def)
  have i3: "\<not> nullish init_ok \<and> \<not> nullish (js_get init_ok ''id'')
            \<and> \<not> is_reference (js_get init_ok ''id'')"
    by (simp add: init_ok_def js_get_def nullish_def)
  have m2: "request_method (run_correlator ?evs) 2 = ''tools/list''"
    unfolding run by (simp add: request_method_def)
  have s: "\<forall>h' < length (requests (run_correlator ?evs)).
             calls_of (run_correlator ?evs) h' = [] \<longrightarrow>
             request_id (run_correlator ?evs) h' \<noteq> js_get stray_frame ''id''"
    unfolding run by (simp add: request_id_def stray_frame_def js_get_def nth_Cons' calls_of_def)
  have A: "calls_of (corr_step (run_correlator ?evs) (Message (Some init_ok))) 1 = [Responds init_ok]"
    using request_correlation [OF w, where h = 1 and data = init_ok] l1 c1 i2 i3 by blast
  have B: "calls_of (corr_step (run_correlator ?evs) (TimerFires 2)) 2
           = [Rejects (Error ''Timeout waiting for tools/list response'')]"
    using request_correlation [OF w, where h = 2 and data = init_ok] l2 c2
    by (simp add: m2 rpc_timeout_error_def)
  have C: "corr_step (run_correlator ?evs) (TimerFires 0) = run_correlator ?evs"
    using request_correlation [OF w, where h = 0 and data = init_ok] c0 by blast
  have D: "corr_step (run_correlator ?evs) (Message (Some stray_frame)) = run_correlator ?evs"
    using request_correlation [OF w, where h = 0 and data = stray_frame] s by blast
  have E: "calls (run_correlator
        [PostRpc (JNum ''1'') ''initialize'', FetchFails 0 not_ready,
         PostRpc (JNum ''1'') ''initialize'', PostRpc (JNum ''2'') ''tools/list'',
         Message (Some init_ok), Message (Some stray_frame), TimerFires 2,
         Message (Some tools_reply), TimerFires 1, Message (Some init_ok)])
       = [(0, Rejects not_ready), (1, Responds init_ok),
          (2, Rejects (Error ''Timeout waiting for tools/list response''))]"
    by (simp add: run_correlator_def corr_step_def correlator_init_def post_fails_def
        tools_reply_def stray_frame_def init_ok_def js_get_def nullish_def request_id_def
        request_method_def rpc_timeout_error_def)
  show ?thesis using w r cs i1 i3 A B C D E by blast
qed

section \<open>Proofs: the Call Serializer\<close>

lemma session_history_append:
  "session_history (xs @ ys) = session_history xs @ session_history ys"
  by (induction xs rule: session_history.induct) simp_all

lemma submitted_append: "submitted (evs @ evs') = submitted evs @ submitted evs'"
  by (induction evs rule: submitted.induct) simp_all

lemma serial_Cons:
  assumes "\<not> (cs = [] \<and> busy)"
  shows "serial (c # cs) busy xs =
     (\<exists>status body xs'. xs = Started c # Responded c status body # xs'
        \<and> (status = 200 \<or> status = 500) \<and> serial cs busy xs')"
proof (cases xs)
  case Nil
  then show ?thesis using assms by simp
next
  case outer: (Cons x xs1)
  show ?thesis
  proof (cases x)
    case (Responded c' status body)
    then show ?thesis using assms outer by simp
  next
    case (Started c')
    show ?thesis
    proof (cases xs1)
      case Nil
      then show ?thesis using assms outer Started by auto
    next
      case inner: (Cons y xs2)
      show ?thesis
        using assms outer Started inner by (cases y) auto
    qed
  qed
qed

lemma serial_start:
  "serial cs False xs \<Longrightarrow> serial (cs @ [c]) True (xs @ [Started c])"
proof (induction cs arbitrary: xs)
  case Nil
  then show ?case by simp
next
  case (Cons a cs)
  from Cons.prems obtain status body xs' where
    xs: "xs = Started a # Responded a status body # xs'" "status = 200 \<or> status = 500"
    and r: "serial cs False xs'"
    using serial_Cons [of cs False a xs] by blast
  have "serial (cs @ [c]) True (xs' @ [Started c])" using r by (rule Cons.IH)
  then show ?case using xs by simp
qed

lemma serial_respond:
  "serial (cs @ [c]) True xs \<Longrightarrow> status = 200 \<or> status = 500 \<Longrightarrow>
   serial (cs @ [c]) False (xs @ [Responded c status body])"
proof (induction cs arbitrary: xs)
  case Nil
  then show ?case by simp
next
  case (Cons a cs)
  have ne: "\<not> (cs @ [c] = [] \<and> True)" by simp
  have "serial (a # cs @ [c]) True xs" using Cons.prems(1) by (simp only: append_Cons)
  then obtain status' body' xs' where
    xs: "xs = Started a # Responded a status' body' # xs'" "status' = 200 \<or> status' = 500"
    and r: "serial (cs @ [c]) True xs'"
    using serial_Cons [OF ne, of a xs] by blast
  have "serial (cs @ [c]) False (xs' @ [Responded c status body])"
    using r Cons.prems(2) by (rule Cons.IH)
  then show ?case using xs by simp
qed

lemma run_queue_snoc: "run_queue (evs @ [ev]) = queue_step (run_queue evs) ev"
  by (simp add: run_queue_def)

lemma inv_arrives_unnamed:
  assumes "queue_inv evs q" "\<not> truthy (name r)"
  shows "queue_inv (evs @ [Arrives r]) (queue_step q (Arrives r))"
  using assms
  by (simp add: queue_inv_def queue_step_def submitted_append session_history_append)

lemma inv_arrives_idle:
  assumes "queue_inv evs q" "truthy (name r)" "running q = None"
  shows "queue_inv (evs @ [Arrives r]) (queue_step q (Arrives r))"
proof -
  from assms(1,3) have w: "waiting q = []" and s: "serial (submitted evs) False (session_history (history q))"
    by (auto simp: queue_inv_def)
  have st: "queue_step q (Arrives r)
            = q\<lparr>waiting := [], running := Some r, history := history q @ [Started (caller r)]\<rparr>"
    using assms(2,3) w by (simp add: queue_step_def start_next_def)
  show ?thesis
    unfolding queue_inv_def st
    by (rule exI [of _ "submitted evs"])
       (use assms(2) serial_start [OF s] in \<open>simp add: submitted_append session_history_append\<close>)
qed

lemma inv_arrives_busy:
  assumes "queue_inv evs q" "truthy (name r)" "running q = Some r'"
  shows "queue_inv (evs @ [Arrives r]) (queue_step q (Arrives r))"
proof -
  from assms(1) obtain finished where
    f: "submitted evs = finished @ [caller r'] @ map caller (waiting q)"
       "serial (finished @ [caller r']) True (session_history (history q))"
    by (auto simp: queue_inv_def assms(3))
  have st: "queue_step q (Arrives r) = q\<lparr>waiting := waiting q @ [r]\<rparr>"
    using assms(2,3) by (simp add: queue_step_def)
  show ?thesis
    unfolding queue_inv_def st
    by (rule exI [of _ finished]) (use assms(2,3) f in \<open>simp add: submitted_append\<close>)
qed

lemma inv_settles:
  assumes "queue_inv evs q"
  shows "queue_inv (evs @ [Settles res]) (queue_step q (Settles res))"
proof (cases "running q")
  case None
  with assms show ?thesis
    by (simp add: queue_inv_def queue_step_def submitted_append)
next
  case (Some r)
  from assms obtain finished where
    f: "submitted evs = finished @ [caller r] @ map caller (waiting q)"
       "serial (finished @ [caller r]) True (session_history (history q))"
    by (auto simp: queue_inv_def Some)
  define resp where "resp = (case res of Inr v \<Rightarrow> Responded (caller r) 200 v
        | Inl e \<Rightarrow> Responded (caller r) 500 (JObj [(''error'', JStr (message e))]))"
  obtain status body where resp: "resp = Responded (caller r) status body"
    "status = 200 \<or> status = 500"
    by (cases res) (auto simp: resp_def)
  have sh: "session_history [resp] = [resp]" using resp by auto
  have sh2: "session_history [resp, x] = resp # session_history [x]" for x using resp by auto
  have s': "serial (finished @ [caller r]) False (session_history (history q) @ [resp])"
    unfolding resp(1) using f(2) resp(2) by (rule serial_respond)
  show ?thesis
  proof (cases "waiting q")
    case Nil
    have st: "queue_step q (Settles res) = q\<lparr>history := history q @ [resp], running := None\<rparr>"
      by (simp add: queue_step_def Some start_next_def Nil resp_def)
    show ?thesis
      unfolding queue_inv_def st
      by (rule exI [of _ "finished @ [caller r]"])
         (use f(1) s' Nil sh in \<open>simp add: submitted_append session_history_append\<close>)
  next
    case (Cons r2 rs)
    have st: "queue_step q (Settles res)
              = q\<lparr>history := history q @ [resp, Started (caller r2)], waiting := rs, running := Some r2\<rparr>"
      by (simp add: queue_step_def Some start_next_def Cons resp_def)
    have s'': "serial ((finished @ [caller r]) @ [caller r2]) True
                 ((session_history (history q) @ [resp]) @ [Started (caller r2)])"
      using s' by (rule serial_start)
    show ?thesis
      unfolding queue_inv_def st
      by (rule exI [of _ "finished @ [caller r]"])
         (use f(1) s'' Cons sh sh2 in \<open>simp add: submitted_append session_history_append\<close>)
  qed
qed

lemma inv_queue_step:
  assumes "queue_inv evs q"
  shows "queue_inv (evs @ [ev]) (queue_step q ev)"
proof (cases ev)
  case (Arrives r)
  show ?thesis
  proof (cases "truthy (name r)")
    case False
    with assms show ?thesis unfolding Arrives by (simp add: inv_arrives_unnamed)
  next
    case True
    show ?thesis
      unfolding Arrives
      using assms True inv_arrives_idle inv_arrives_busy by (cases "running q") auto
  qed
next
  case (Settles res)
  with assms show ?thesis by (simp add: inv_settles)
qed

lemma inv_run_queue: "queue_inv evs (run_queue evs)"
proof (induction evs rule: rev_induct)
  case Nil
  show ?case by (simp add: queue_inv_def run_queue_def serializer_init_def)
next
  case (snoc ev evs)
  then show ?case by (simp add: run_queue_snoc inv_queue_step)
qed

lemma started_eq:
  assumes "submitted evs = xs @ map caller (waiting q)"
  shows "started evs q = xs"
  using assms by (simp add: started_def)

text \<open>
  Claim C8. After any arrivals of requests and any settlements of the running call:
  the callers whose chain has been started are the first of those submitted, in the
  order of submission, the others are waiting in that order; in the history each chain
  is started, then answered to its own caller (200 with the result, 500 with the error
  message), and only then is the next chain started; no request waits while nothing
  runs; and when the running call fails, the error goes to its caller and the next
  waiting call is started.
\<close>

theorem call_serialization:
  "serial (started evs (run_queue evs)) (running (run_queue evs) \<noteq> None)
      (session_history (history (run_queue evs)))
   \<and> submitted evs = started evs (run_queue evs) @ map caller (waiting (run_queue evs))
   \<and> (running (run_queue evs) = None \<longrightarrow> waiting (run_queue evs) = [])
   \<and> (running (run_queue evs) = Some r \<and> waiting (run_queue evs) = r' # rs \<longrightarrow>
        queue_step (run_queue evs) (Settles (Inl e))
          = (run_queue evs)
              \<lparr>history := history (run_queue evs) @
                  [Responded (caller r) 500 (JObj [(''error'', JStr (message e))]),
                   Started (caller r')],
                waiting := rs, running := Some r'\<rparr>)"
proof -
  define q where "q = run_queue evs"
  have "queue_inv evs q" unfolding q_def by (rule inv_run_queue)
  then obtain finished where
    f: "submitted evs
          = (finished @ (case running q of None \<Rightarrow> [] | Some r \<Rightarrow> [caller r])) @ map caller (waiting q)"
       "serial (finished @ (case running q of None \<Rightarrow> [] | Some r \<Rightarrow> [caller r]))
             (running q \<noteq> None) (session_history (history q))"
       "running q = None \<longrightarrow> waiting q = []"
    by (auto simp: queue_inv_def)
  have st: "started evs q = finished @ (case running q of None \<Rightarrow> [] | Some r \<Rightarrow> [caller r])"
    using f(1) by (rule started_eq)
  have step: "running q = Some r \<and> waiting q = r' # rs \<longrightarrow>
        queue_step q (Settles (Inl e))
          = q\<lparr>history := history q @
                  [Responded (caller r) 500 (JObj [(''error'', JStr (message e))]),
                   Started (caller r')],
                waiting := rs, running := Some r'\<rparr>"
    by (simp add: queue_step_def start_next_def)
  show ?thesis
    unfolding q_def [symmetric] using f st step by simp
qed

text \<open>
  The theorem at three arrivals, the second without a tool name, followed by the
  failure of the first call and the success of the third.
\<close>

theorem call_serialization_witness:
  "running (run_queue [Arrives request_a, Arrives request_b, Arrives request_c]) = Some request_a
   \<and> waiting (run_queue [Arrives request_a, Arrives request_b, Arrives request_c]) = [request_c]
   \<and> history (queue_step (run_queue [Arrives request_a, Arrives request_b, Arrives request_c])
        (Settles (Inl (Error ''Session timeout''))))
      = [Started 1, Responded 2 400 (JObj [(''error'', JStr ''Missing tool name'')]),
         Responded 1 500 (JObj [(''error'', JStr ''Session timeout'')]), Started 3]
   \<and> submitted [Arrives request_a, Arrives request_b, Arrives request_c,
         Settles (Inl (Error ''Session timeout'')), Settles (Inr (JObj []))] = [1, 3]
   \<and> serial [1, 3] False
        (session_history (history (run_queue [Arrives request_a, Arrives request_b, Arrives request_c,
           Settles (Inl (Error ''Session timeout'')), Settles (Inr (JObj []))])))
   \<and> history (run_queue [Arrives request_a, Arrives request_b, Arrives request_c,
         Settles (Inl (Error ''Session timeout'')), Settles (Inr (JObj []))])
      = [Started 1, Responded 2 400 (JObj [(''error'', JStr ''Missing tool name'')]),
         Responded 1 500 (JObj [(''error'', JStr ''Session timeout'')]), Started 3,
         Responded 3 200 (JObj [])]"
proof -
  let ?pre = "[Arrives request_a, Arrives request_b, Arrives request_c]"
  let ?all = "[Arrives request_a, Arrives request_b, Arrives request_c,
         Settles (Inl (Error ''Session timeout'')), Settles (Inr (JObj []))]"
  have pre: "run_queue ?pre =
      \<lparr>waiting = [request_c], running = Some request_a,
       history = [Started 1, Responded 2 400 (JObj [(''error'', JStr ''Missing tool name'')])]\<rparr>"
    by (simp add: run_queue_def queue_step_def start_next_def serializer_init_def
        request_a_def request_b_def request_c_def truthy_def)
  have all: "run_queue ?all =
      \<lparr>waiting = [], running = None,
       history = [Started 1, Responded 2 400 (JObj [(''error'', JStr ''Missing tool name'')]),
         Responded 1 500 (JObj [(''error'', JStr ''Session timeout'')]), Started 3,
         Responded 3 200 (JObj [])]\<rparr>"
    by (simp add: run_queue_def queue_step_def start_next_def serializer_init_def
        request_a_def request_b_def request_c_def truthy_def)
  have sub: "submitted ?all = [1, 3]"
    by (simp add: request_a_def request_b_def request_c_def truthy_def)
  have h1: "running (run_queue ?pre) = Some request_a \<and> waiting (run_queue ?pre) = request_c # []"
    unfolding pre by simp
  have A: "history (queue_step (run_queue ?pre) (Settles (Inl (Error ''Session timeout''))))
      = [Started 1, Responded 2 400 (JObj [(''error'', JStr ''Missing tool name'')]),
         Responded 1 500 (JObj [(''error'', JStr ''Session timeout'')]), Started 3]"
  proof -
    have "queue_step (run_queue ?pre) (Settles (Inl (Error ''Session timeout'')))
          = (run_queue ?pre)
              \<lparr>history := history (run_queue ?pre) @
                  [Responded (caller request_a) 500
                     (JObj [(''error'', JStr (message (Error ''Session timeout'')))]),
                   Started (caller request_c)],
                waiting := [], running := Some request_c\<rparr>"
      using call_serialization [of ?pre request_a request_c "[]" "Error ''Session timeout''"] h1
      by blast
    then show ?thesis
      unfolding pre by (simp add: request_a_def request_c_def)
  qed
  have B: "serial [1, 3] False (session_history (history (run_queue ?all)))"
  proof -
    have "serial (started ?all (run_queue ?all)) (running (run_queue ?all) \<noteq> None)
            (session_history (history (run_queue ?all)))"
      using call_serialization [of ?all request_a request_c "[]" "Error ''Session timeout''"]
      by blast
    moreover have "started ?all (run_queue ?all) = [1, 3]"
      unfolding started_def sub all by simp
    moreover have "running (run_queue ?all) = None" unfolding all by simp
    ultimately show ?thesis by simp
  qed
  show ?thesis using h1 A sub B all by simp
qed

section \<open>Proofs: the bearer credential\<close>

lemma run_bridge_snoc: "run_bridge key (evs @ [ev]) = bridge_step (run_bridge key evs) ev"
  by (simp add: run_bridge_def)

lemma sent_goes_out:
  "sent (foldl bridge_step b (map Goes_out rs))
     = sent b @ map (\<lambda>r. (r, ''Bearer '' @ js_toString (API_KEY b))) rs
   \<and> API_KEY (foldl bridge_step b (map Goes_out rs)) = API_KEY b"
proof (induction rs arbitrary: b)
  case Nil
  show ?case by simp
next
  case (Cons r rs)
  show ?case
    using Cons.IH [of "bridge_step b (Goes_out r)"] by (simp add: bridge_step_def)
qed

text \<open>
  Claim C9, as amended. Every outgoing request, be it the connection of the stream or
  a POST of an attempt in flight, carries the credential that is installed at the
  moment the request is sent: a reconnect with a key replaces the credential of all
  later requests, those of the attempt in flight and those of the next attempt alike,
  and changes no request sent before; a reconnect without a key changes nothing.
\<close>

theorem credential_per_request:
  "sent (run_bridge key (evs @ [Goes_out r]))
     = sent (run_bridge key evs) @ [(r, ''Bearer '' @ js_toString (API_KEY (run_bridge key evs)))]
   \<and> API_KEY (run_bridge key (evs @ [Goes_out r])) = API_KEY (run_bridge key evs)
   \<and> sent (run_bridge key (evs @ [Reconnect k])) = sent (run_bridge key evs)
   \<and> API_KEY (run_bridge key (evs @ [Reconnect k]))
       = (if truthy k then k else API_KEY (run_bridge key evs))
   \<and> (truthy k \<longrightarrow>
        sent (run_bridge key (evs @ Reconnect k # map Goes_out rs))
          = sent (run_bridge key evs) @ map (\<lambda>r. (r, ''Bearer '' @ js_toString k)) rs)"
proof -
  have "sent (run_bridge key (evs @ Reconnect k # map Goes_out rs))
          = sent (run_bridge key evs) @ map (\<lambda>r. (r, ''Bearer '' @ js_toString k)) rs"
    if t: "truthy k"
  proof -
    have b: "bridge_step (run_bridge key evs) (Reconnect k) = (run_bridge key evs)\<lparr>API_KEY := k\<rparr>"
      using t by (simp add: bridge_step_def)
    have "run_bridge key (evs @ Reconnect k # map Goes_out rs)
          = foldl bridge_step ((run_bridge key evs)\<lparr>API_KEY := k\<rparr>) (map Goes_out rs)"
      by (simp add: run_bridge_def b [unfolded run_bridge_def])
    then show ?thesis
      using sent_goes_out [of "(run_bridge key evs)\<lparr>API_KEY := k\<rparr>" rs] by simp
  qed
  then show ?thesis
    by (simp add: run_bridge_snoc bridge_step_def)
qed

text \<open>
  Claim C9 as stated fails: an attempt connects with the credential \<^verbatim>\<open>old-key\<close>, a
  reconnect installs another one before the attempt sends its initialize request, and
  that request carries the new credential, whichever it is.
\<close>

theorem credential_per_request_counterexample:
  "sent (run_bridge (JStr ''old-key'')
      [Goes_out Stream_connect, Reconnect (JStr ''new-key''), Goes_out (Rpc_post 1 ''initialize'')])
     = [(Stream_connect, ''Bearer old-key''), (Rpc_post 1 ''initialize'', ''Bearer new-key'')]
   \<and> sent (run_bridge (JStr ''old-key'')
      [Goes_out Stream_connect, Reconnect (JStr ''other-key''), Goes_out (Rpc_post 1 ''initialize'')])
     = [(Stream_connect, ''Bearer old-key''), (Rpc_post 1 ''initialize'', ''Bearer other-key'')]"
  by (simp add: run_bridge_def bridge_step_def truthy_def)

text \<open>
  The theorem at an attempt that connects, is reconfigured, and then sends its
  initialize request, its notification and its tool call.
\<close>

theorem credential_per_request_witness:
  "truthy (JStr ''new-key'')
   \<and> sent (run_bridge (JStr ''old-key'')
        ([Goes_out Stream_connect] @ Reconnect (JStr ''new-key'') #
           map Goes_out [Rpc_post 1 ''initialize'', Notify_post ''notifications/initialized'',
                         Rpc_post 2 ''tools/call'']))
      = [(Stream_connect, ''Bearer old-key''), (Rpc_post 1 ''initialize'', ''Bearer new-key''),
         (Notify_post ''notifications/initialized'', ''Bearer new-key''),
         (Rpc_post 2 ''tools/call'', ''Bearer new-key'')]"
proof -
  have t: "truthy (JStr ''new-key'')" by (simp add: truthy_def)
  have s: "sent (run_bridge (JStr ''old-key'') [Goes_out Stream_connect])
           = [(Stream_connect, ''Bearer old-key'')]"
    by (simp add: run_bridge_def bridge_step_def)
  show ?thesis
    using credential_per_request [of "JStr ''old-key''" "[Goes_out Stream_connect]" Stream_connect
        "JStr ''new-key''" "[Rpc_post 1 ''initialize'', Notify_post ''notifications/initialized'',
                         Rpc_post 2 ''tools/call'']"] t s
    by simp
qed

end
